theory Spec2Isabelle
  imports Main "HOL-Library.Sublist"
begin

section \<open>JavaScript strings\<close>

text \<open>
  A JavaScript string is a sequence of UTF-16 code units. The model keeps the code units
  as natural numbers, so that the byte-order mark U+FEFF and the accented letters of the
  backup header are single elements, as they are for \<^verbatim>\<open>charCodeAt\<close>,
  \<^verbatim>\<open>lastIndexOf\<close>, \<^verbatim>\<open>substring\<close> and \<^verbatim>\<open>split\<close>.
  \<open>asc\<close> turns an ASCII literal into its code units.
\<close>

type_synonym jsstring = "nat list"

definition asc :: "string \<Rightarrow> jsstring" where
  "asc s = map of_char s"

definition nl :: nat where
  "nl = 10"

text \<open>\<^verbatim>\<open>text.split('\n')\<close>: the pieces between separators; the empty text gives one empty piece.\<close>

fun split_on :: "nat \<Rightarrow> jsstring \<Rightarrow> jsstring list" where
  "split_on sep [] = [[]]"
| "split_on sep (c # cs) =
     (if c = sep then [] # split_on sep cs
      else (case split_on sep cs of
              [] \<Rightarrow> [[c]]
            | l # ls \<Rightarrow> (c # l) # ls))"

text \<open>\<^verbatim>\<open>lines.join('\n')\<close>.\<close>

fun join :: "jsstring \<Rightarrow> jsstring list \<Rightarrow> jsstring" where
  "join sep [] = []"
| "join sep [l] = l"
| "join sep (l # l' # ls) = l @ sep @ join sep (l' # ls)"

text \<open>
  \<^verbatim>\<open>s.includes(t)\<close>: \<open>t\<close> occurs in \<open>s\<close> as a contiguous run of code units.
\<close>

fun str_includes :: "jsstring \<Rightarrow> jsstring \<Rightarrow> bool" where
  "str_includes [] t = (t = [])"
| "str_includes (c # cs) t = (prefix t (c # cs) \<or> str_includes cs t)"

text \<open>
  \<^verbatim>\<open>s.lastIndexOf(t)\<close>: the greatest index at which \<open>t\<close> occurs in \<open>s\<close>; \<open>None\<close>
  stands for the result \<open>-1\<close>.
\<close>

fun lastIndexOf :: "jsstring \<Rightarrow> jsstring \<Rightarrow> nat option" where
  "lastIndexOf [] t = (if t = [] then Some 0 else None)"
| "lastIndexOf (c # cs) t =
     (case lastIndexOf cs t of
        Some k \<Rightarrow> Some (Suc k)
      | None \<Rightarrow> if prefix t (c # cs) then Some 0 else None)"

text \<open>
  \<^verbatim>\<open>xs.slice(start)\<close> and \<^verbatim>\<open>xs.slice(0, end)\<close> on an integer argument: a negative
  argument counts from the end of the array.
\<close>

definition slice_from :: "'a list \<Rightarrow> int \<Rightarrow> 'a list" where
  "slice_from xs start =
     (if start < 0 then drop (nat (max (int (length xs) + start) 0)) xs
      else drop (nat start) xs)"

definition slice_to :: "'a list \<Rightarrow> int \<Rightarrow> 'a list" where
  "slice_to xs stop =
     (if stop < 0 then take (nat (max (int (length xs) + stop) 0)) xs
      else take (nat stop) xs)"

text \<open>\<^verbatim>\<open>xs.findIndex(p)\<close>, with \<open>None\<close> for \<open>-1\<close>, and \<^verbatim>\<open>xs.splice(index, 1)\<close>.\<close>

fun findIndex :: "('a \<Rightarrow> bool) \<Rightarrow> 'a list \<Rightarrow> nat option" where
  "findIndex p [] = None"
| "findIndex p (x # xs) = (if p x then Some 0 else map_option Suc (findIndex p xs))"

definition splice1 :: "nat \<Rightarrow> 'a list \<Rightarrow> 'a list" where
  "splice1 index xs = take index xs @ drop (Suc index) xs"

text \<open>
  ASCII case folding of one code unit. The regular expression of
  \<^verbatim>\<open>extractDefinitionFromBackup\<close> has the flag \<^verbatim>\<open>i\<close> and no flag \<^verbatim>\<open>u\<close>: there a code
  unit from 128 on never matches an ASCII letter, so this folding is the one it uses.
\<close>

definition ascii_upper :: "nat \<Rightarrow> nat" where
  "ascii_upper c = (if 97 \<le> c \<and> c \<le> 122 then c - 32 else c)"

definition ascii_lower :: "nat \<Rightarrow> nat" where
  "ascii_lower c = (if 65 \<le> c \<and> c \<le> 90 then c + 32 else c)"

text \<open>The characters of the class \<^verbatim>\<open>\s\<close>, and the line terminators that \<^verbatim>\<open>.\<close> excludes.\<close>

definition is_space :: "nat \<Rightarrow> bool" where
  "is_space c \<longleftrightarrow>
     c \<in> {9, 10, 11, 12, 13, 32, 160, 5760, 8232, 8233, 8239, 8287, 12288, 65279}
     \<or> (8192 \<le> c \<and> c \<le> 8202)"

definition line_terminator :: "nat \<Rightarrow> bool" where
  "line_terminator c \<longleftrightarrow> c \<in> {10, 13, 8232, 8233}"

text \<open>\<^verbatim>\<open>s.replace('T', r)\<close>: the first occurrence of one code unit is replaced.\<close>

fun replace_first :: "nat \<Rightarrow> jsstring \<Rightarrow> jsstring \<Rightarrow> jsstring" where
  "replace_first c r [] = []"
| "replace_first c r (d # ds) = (if d = c then r @ ds else d # replace_first c r ds)"

text \<open>
  \<^verbatim>\<open>s.replace(/\..+/, '')\<close>: the first dot that is followed by a character other than a
  line terminator is removed together with the longest run of such characters after it.
\<close>

fun strip_fraction :: "jsstring \<Rightarrow> jsstring" where
  "strip_fraction [] = []"
| "strip_fraction (c # cs) =
     (if c = 46 \<and> cs \<noteq> [] \<and> \<not> line_terminator (hd cs)
      then dropWhile (\<lambda>d. \<not> line_terminator d) cs
      else c # strip_fraction cs)"

text \<open>\<^verbatim>\<open>n.toString(36)\<close> for an integer.\<close>

definition digit36 :: "nat \<Rightarrow> nat" where
  "digit36 d = (if d < 10 then 48 + d else 87 + d)"

fun digits36 :: "nat \<Rightarrow> jsstring" where
  "digits36 n = (if n < 36 then [digit36 n] else digits36 (n div 36) @ [digit36 (n mod 36)])"

declare digits36.simps [simp del]

definition toString36 :: "int \<Rightarrow> jsstring" where
  "toString36 n = (if n < 0 then 45 # digits36 (nat (- n)) else digits36 (nat n))"


section \<open>Diff engine (src/backup/diffUtils.ts)\<close>

datatype line_type = unchanged | added | removed

record lineNumber =
  old :: "nat option"
  new :: "nat option"

record DiffLine =
  type :: line_type
  lineNumber :: lineNumber
  content :: jsstring

subsection \<open>lcs: the table of the nested loops\<close>

text \<open>
  The body of the inner loop of \<^verbatim>\<open>lcs\<close>: the assignment to \<^verbatim>\<open>dp[i][j]\<close>.
\<close>

definition lcs_cell ::
  "jsstring list \<Rightarrow> jsstring list \<Rightarrow> nat \<Rightarrow> nat \<Rightarrow> nat list list \<Rightarrow> nat list list" where
  "lcs_cell oldLines newLines i j dp =
     (if oldLines ! (i - 1) = newLines ! (j - 1)
      then dp[i := (dp ! i)[j := dp ! (i - 1) ! (j - 1) + 1]]
      else dp[i := (dp ! i)[j := max (dp ! (i - 1) ! j) (dp ! i ! (j - 1))]])"

text \<open>
  \<^verbatim>\<open>dp\<close> starts as \<open>m + 1\<close> rows of \<open>n + 1\<close> zeros; the loops run \<open>i\<close> from 1 to
  \<open>m\<close> and, inside, \<open>j\<close> from 1 to \<open>n\<close>.
\<close>

definition lcs :: "jsstring list \<Rightarrow> jsstring list \<Rightarrow> nat list list" where
  "lcs oldLines newLines =
     (let m = length oldLines;
          n = length newLines;
          dp = replicate (m + 1) (replicate (n + 1) 0)
      in fold (\<lambda>i. fold (lcs_cell oldLines newLines i) [1..<n + 1]) [1..<m + 1] dp)"

subsection \<open>backtrack\<close>

text \<open>
  The \<^verbatim>\<open>while (currI > 0 || currJ > 0)\<close> loop, with \<^verbatim>\<open>tempResult.push\<close> as
  appending. The three branches are those of the source, in its order; when none of
  them fires the source goes round the loop with nothing changed, which the last
  branch keeps as a call on the same arguments. The termination proof shows that this
  branch is never reached.
\<close>

function backtrack_loop ::
  "nat list list \<Rightarrow> jsstring list \<Rightarrow> jsstring list \<Rightarrow> nat \<Rightarrow> nat \<Rightarrow> DiffLine list \<Rightarrow> DiffLine list" where
  "backtrack_loop dp oldLines newLines currI currJ tempResult =
     (if currI > 0 \<or> currJ > 0 then
        if currI > 0 \<and> currJ > 0 \<and> oldLines ! (currI - 1) = newLines ! (currJ - 1) then
          backtrack_loop dp oldLines newLines (currI - 1) (currJ - 1)
            (tempResult @ [\<lparr>type = unchanged,
                            lineNumber = \<lparr>old = Some currI, new = Some currJ\<rparr>,
                            content = oldLines ! (currI - 1)\<rparr>])
        else if currJ > 0 \<and> (currI = 0 \<or> dp ! currI ! (currJ - 1) \<ge> dp ! (currI - 1) ! currJ) then
          backtrack_loop dp oldLines newLines currI (currJ - 1)
            (tempResult @ [\<lparr>type = added,
                            lineNumber = \<lparr>old = None, new = Some currJ\<rparr>,
                            content = newLines ! (currJ - 1)\<rparr>])
        else if currI > 0 then
          backtrack_loop dp oldLines newLines (currI - 1) currJ
            (tempResult @ [\<lparr>type = removed,
                            lineNumber = \<lparr>old = Some currI, new = None\<rparr>,
                            content = oldLines ! (currI - 1)\<rparr>])
        else backtrack_loop dp oldLines newLines currI currJ tempResult
      else tempResult)"
  by pat_completeness auto
termination
  by (relation "measure (\<lambda>(dp, oldLines, newLines, currI, currJ, tempResult). currI + currJ)") auto

declare backtrack_loop.simps [simp del]

definition backtrack ::
  "nat list list \<Rightarrow> jsstring list \<Rightarrow> jsstring list \<Rightarrow> nat \<Rightarrow> nat \<Rightarrow> DiffLine list" where
  "backtrack dp oldLines newLines i j = rev (backtrack_loop dp oldLines newLines i j [])"

subsection \<open>generateDiff\<close>

record TextDiff =
  diff :: jsstring
  lines_added :: nat
  lines_removed :: nat
  is_identical :: bool

text \<open>
  One round of the \<^verbatim>\<open>for (const line of diffLines)\<close> loop, on the triple
  \<^verbatim>\<open>(diffOutput, linesAdded, linesRemoved)\<close>.
\<close>

fun diff_step :: "DiffLine \<Rightarrow> jsstring list \<times> nat \<times> nat \<Rightarrow> jsstring list \<times> nat \<times> nat" where
  "diff_step line (diffOutput, linesAdded, linesRemoved) =
     (case type line of
        unchanged \<Rightarrow> (diffOutput @ [asc ''  '' @ content line], linesAdded, linesRemoved)
      | added \<Rightarrow> (diffOutput @ [asc ''+ '' @ content line], linesAdded + 1, linesRemoved)
      | removed \<Rightarrow> (diffOutput @ [asc ''- '' @ content line], linesAdded, linesRemoved + 1))"

definition generateDiff :: "jsstring \<Rightarrow> jsstring \<Rightarrow> TextDiff" where
  "generateDiff oldText newText =
     (let oldLines = split_on nl oldText;
          newLines = split_on nl newText
      in if oldText = newText then
           \<lparr>diff = asc ''(No changes)'', lines_added = 0, lines_removed = 0, is_identical = True\<rparr>
         else
           (let dp = lcs oldLines newLines;
                diffLines = backtrack dp oldLines newLines (length oldLines) (length newLines);
                (diffOutput, linesAdded, linesRemoved) =
                  fold diff_step diffLines ([asc ''--- old'', asc ''+++ new'', []], 0, 0)
            in \<lparr>diff = join [nl] diffOutput, lines_added = linesAdded,
                lines_removed = linesRemoved, is_identical = False\<rparr>))"


section \<open>Backup manager (src/backup/backupManager.ts)\<close>

subsection \<open>Data model (src/types/sqlServerTypes.ts)\<close>

text \<open>
  The field \<^verbatim>\<open>id\<close> of a backup entry is \<open>entry_id\<close> here, and the fields
  \<^verbatim>\<open>success\<close> and \<^verbatim>\<open>backup_file\<close> of a backup result are \<open>result_success\<close> and
  \<open>result_file\<close>: the other names are those of the source.
\<close>

datatype operation = ALTER | DROP | CREATE | RESTORE

record BackupEntry =
  entry_id :: jsstring
  timestamp :: jsstring
  operation :: operation
  object_type :: jsstring
  object_name :: jsstring
  schema_name :: jsstring
  database :: jsstring
  backup_file :: jsstring
  file_hash :: jsstring
  success :: bool
  error_message :: "jsstring option"

record BackupLog =
  version :: jsstring
  created_at :: jsstring
  updated_at :: jsstring
  backups :: "BackupEntry list"

record BackupResult =
  result_success :: bool
  message :: jsstring
  result_file :: jsstring
  backup_id :: jsstring

record BackupConfig =
  enabled :: bool
  directory :: jsstring
  max_backups_per_object :: int
  auto_cleanup :: bool
  cleanup_days :: int

subsection \<open>The runtime and the file system\<close>

text \<open>
  What the code asks of the JavaScript runtime is a parameter of the model: the clock
  (\<^verbatim>\<open>new Date().toISOString()\<close> and \<^verbatim>\<open>Date.now()\<close>, read once for a call), the random
  suffix \<^verbatim>\<open>Math.random().toString(36).substring(2, 8)\<close>, the SHA-256 digest in
  hexadecimal, the parsing of a timestamp by \<^verbatim>\<open>new Date(text)\<close> (\<open>None\<close> for an invalid
  date), the Unicode case mappings of strings, and the calendar of the local time zone.
  A date is its time value, the milliseconds since the epoch. \<open>getDate t\<close> is the day of
  the month of \<open>t\<close> in local time, and \<open>setDate t d\<close> is the time value that
  \<^verbatim>\<open>setDate(d)\<close> leaves in a date that held \<open>t\<close>: the same local time of day on day
  \<open>d\<close> of the month of \<open>t\<close>, where days below one and beyond the end of the month
  run into the neighbouring months; it is \<open>None\<close> when the result is outside the range
  of dates, an invalid date.
\<close>

record runtime =
  now_iso :: jsstring
  now_ms :: int
  random36 :: jsstring
  sha256_hex :: "jsstring \<Rightarrow> jsstring"
  date_parse :: "jsstring \<Rightarrow> int option"
  toLowerCase :: "jsstring \<Rightarrow> jsstring"
  toUpperCase :: "jsstring \<Rightarrow> jsstring"
  getDate :: "int \<Rightarrow> int"
  setDate :: "int \<Rightarrow> int \<Rightarrow> int option"

text \<open>
  The backup directory. \<open>log_file\<close> is the content of \<^verbatim>\<open>backup_log.json\<close>, \<open>None\<close> when
  the file is absent or cannot be read and parsed; what is parsed has the shape of a
  \<^verbatim>\<open>BackupLog\<close>. \<open>files\<close> are the content files by their path relative to the backup
  directory (the \<^verbatim>\<open>backup_file\<close> of an entry, before \<^verbatim>\<open>join\<close> puts the directory in
  front), each holding the string that was written. The remaining fields say which
  operations of \<^verbatim>\<open>fs\<close> throw, and with which message: creating a missing directory of
  the layout, writing a content file, writing the log, deleting a file, reading a file.
\<close>

record store =
  log_file :: "BackupLog option"
  files :: "jsstring \<rightharpoonup> jsstring"
  mkdir_error :: "jsstring option"
  write_error :: "jsstring \<rightharpoonup> jsstring"
  log_write_error :: "jsstring option"
  unlink_error :: "jsstring \<rightharpoonup> jsstring"
  read_error :: "jsstring \<rightharpoonup> jsstring"

definition existsSync :: "store \<Rightarrow> jsstring \<Rightarrow> bool" where
  "existsSync s path \<longleftrightarrow> files s path \<noteq> None"

definition writeFileSync :: "store \<Rightarrow> jsstring \<Rightarrow> jsstring \<Rightarrow> jsstring + store" where
  "writeFileSync s path text =
     (case write_error s path of
        Some e \<Rightarrow> Inl e
      | None \<Rightarrow> Inr (s\<lparr>files := (files s)(path \<mapsto> text)\<rparr>))"

definition unlinkSync :: "store \<Rightarrow> jsstring \<Rightarrow> jsstring + store" where
  "unlinkSync s path =
     (case files s path of
        None \<Rightarrow> Inl (asc ''ENOENT: no such file or directory'')
      | Some text \<Rightarrow>
          (case unlink_error s path of
             Some e \<Rightarrow> Inl e
           | None \<Rightarrow> Inr (s\<lparr>files := (files s)(path := None)\<rparr>)))"

definition readFileSync :: "store \<Rightarrow> jsstring \<Rightarrow> jsstring + jsstring" where
  "readFileSync s path =
     (case files s path of
        None \<Rightarrow> Inl (asc ''ENOENT: no such file or directory'')
      | Some text \<Rightarrow>
          (case read_error s path of
             Some e \<Rightarrow> Inl e
           | None \<Rightarrow> Inr text))"

subsection \<open>Directories, log, identifiers and file names\<close>

definition UTF8_BOM :: nat where
  "UTF8_BOM = 65279"

text \<open>The table of \<^verbatim>\<open>getObjectTypeDir\<close>, looked up at the type in upper case.\<close>

definition typeMap :: "(jsstring \<times> jsstring) list" where
  "typeMap =
     [(asc ''PROCEDURE'', asc ''procedures''),
      (asc ''SQL_STORED_PROCEDURE'', asc ''procedures''),
      (asc ''FUNCTION'', asc ''functions''),
      (asc ''SQL_SCALAR_FUNCTION'', asc ''functions''),
      (asc ''SQL_TABLE_VALUED_FUNCTION'', asc ''functions''),
      (asc ''SQL_INLINE_TABLE_VALUED_FUNCTION'', asc ''functions''),
      (asc ''VIEW'', asc ''views''),
      (asc ''TRIGGER'', asc ''triggers''),
      (asc ''SQL_TRIGGER'', asc ''triggers''),
      (asc ''TABLE'', asc ''tables''),
      (asc ''USER_TABLE'', asc ''tables'')]"

definition getObjectTypeDir :: "runtime \<Rightarrow> jsstring \<Rightarrow> jsstring" where
  "getObjectTypeDir rt objectType =
     (case map_of typeMap (toUpperCase rt objectType) of
        Some dir \<Rightarrow> dir
      | None \<Rightarrow> asc ''other'')"

text \<open>
  \<^verbatim>\<open>ensureBackupDirs\<close> creates the backup directory and its six subdirectories where
  they are missing; it throws when one cannot be created.
\<close>

definition ensureBackupDirs :: "store \<Rightarrow> jsstring + unit" where
  "ensureBackupDirs s = (case mkdir_error s of Some e \<Rightarrow> Inl e | None \<Rightarrow> Inr ())"

definition loadBackupLog :: "runtime \<Rightarrow> store \<Rightarrow> BackupLog" where
  "loadBackupLog rt s =
     (case log_file s of
        None \<Rightarrow> \<lparr>version = asc ''1.0'', created_at = now_iso rt, updated_at = now_iso rt,
                  backups = []\<rparr>
      | Some log \<Rightarrow> log)"

definition saveBackupLog :: "runtime \<Rightarrow> store \<Rightarrow> BackupLog \<Rightarrow> jsstring + store" where
  "saveBackupLog rt s log =
     (case log_write_error s of
        Some e \<Rightarrow> Inl e
      | None \<Rightarrow> Inr (s\<lparr>log_file := Some (log\<lparr>updated_at := now_iso rt\<rparr>)\<rparr>))"

definition generateBackupId :: "runtime \<Rightarrow> jsstring" where
  "generateBackupId rt = asc ''bkp_'' @ toString36 (now_ms rt) @ asc ''_'' @ random36 rt"

text \<open>\<^verbatim>\<open>objectName.replace(/[^a-zA-Z0-9_]/g, '_')\<close>, one code unit at a time.\<close>

definition sanitize_unit :: "nat \<Rightarrow> nat" where
  "sanitize_unit c =
     (if (97 \<le> c \<and> c \<le> 122) \<or> (65 \<le> c \<and> c \<le> 90) \<or> (48 \<le> c \<and> c \<le> 57) \<or> c = 95
      then c else 95)"

definition generateBackupFilename :: "runtime \<Rightarrow> jsstring \<Rightarrow> jsstring \<Rightarrow> jsstring" where
  "generateBackupFilename rt objectName objectType =
     (let timestamp = strip_fraction
                        (replace_first 84 (asc ''_'')
                           (filter (\<lambda>c. c \<noteq> 45 \<and> c \<noteq> 58) (now_iso rt)));
          sanitizedName = map sanitize_unit objectName;
          typeDir = getObjectTypeDir rt objectType
      in typeDir @ asc ''/'' @ sanitizedName @ asc ''_'' @ timestamp @ asc ''.sql'')"

definition calculateHash :: "runtime \<Rightarrow> jsstring \<Rightarrow> jsstring" where
  "calculateHash rt text = asc ''sha256:'' @ sha256_hex rt text"

subsection \<open>The provenance header\<close>

definition operation_text :: "operation \<Rightarrow> jsstring" where
  "operation_text op =
     (case op of ALTER \<Rightarrow> asc ''ALTER'' | DROP \<Rightarrow> asc ''DROP''
               | CREATE \<Rightarrow> asc ''CREATE'' | RESTORE \<Rightarrow> asc ''RESTORE'')"

definition rule_line :: jsstring where
  "rule_line = asc ''============================================================''"

definition formatBackupContent ::
  "runtime \<Rightarrow> jsstring \<Rightarrow> jsstring \<Rightarrow> jsstring \<Rightarrow> jsstring \<Rightarrow> operation \<Rightarrow> jsstring \<Rightarrow> jsstring" where
  "formatBackupContent rt objectName objectType schemaName defn op db =
     (let timestamp = strip_fraction (replace_first 84 (asc '' '') (now_iso rt));
          header =
            asc ''/*'' @ [nl] @
            rule_line @ [nl] @
            asc ''BACKUP AUTOM'' @ [193] @ asc ''TICO - MCP SQL Server'' @ [nl] @
            rule_line @ [nl] @
            asc ''Objeto:      '' @ objectName @ [nl] @
            asc ''Tipo:        '' @ objectType @ [nl] @
            asc ''Schema:      '' @ schemaName @ [nl] @
            asc ''Fecha:       '' @ timestamp @ [nl] @
            asc ''Operaci'' @ [243] @ asc ''n:   '' @ operation_text op @ [nl] @
            asc ''Base Datos:  '' @ db @ [nl] @
            rule_line @ [nl] @
            asc ''PARA RESTAURAR: Ejecute el contenido de este archivo en SSMS'' @ [nl] @
            rule_line @ [nl] @
            asc ''*/'' @ [nl] @
            [nl]
      in UTF8_BOM # header @ defn)"

subsection \<open>extractDefinitionFromBackup\<close>

definition headerEndMarker :: jsstring where
  "headerEndMarker =
     asc ''============================================================'' @ [nl] @
     asc ''*/'' @ [nl] @ [nl]"

text \<open>
  The regular expression
  \<^verbatim>\<open>/(CREATE|ALTER)\s+(PROCEDURE|FUNCTION|VIEW|TRIGGER|TABLE)/i\<close>: a keyword of the
  first group in either case, at least one white-space character, and a keyword of the
  second group. \<open>statement_index\<close> is the index of the leftmost match.
\<close>

definition keyword_at :: "jsstring \<Rightarrow> jsstring \<Rightarrow> bool" where
  "keyword_at kw text \<longleftrightarrow> prefix kw (map ascii_upper text)"

definition statement_at :: "jsstring \<Rightarrow> bool" where
  "statement_at text \<longleftrightarrow>
     (\<exists>kw \<in> set [asc ''CREATE'', asc ''ALTER''].
        keyword_at kw text \<and>
        (let rest = drop (length kw) text
         in rest \<noteq> [] \<and> is_space (hd rest) \<and>
            (\<exists>kw' \<in> set [asc ''PROCEDURE'', asc ''FUNCTION'', asc ''VIEW'', asc ''TRIGGER'', asc ''TABLE''].
               keyword_at kw' (dropWhile is_space rest))))"

fun statement_index :: "jsstring \<Rightarrow> nat option" where
  "statement_index [] = None"
| "statement_index (c # cs) =
     (if statement_at (c # cs) then Some 0 else map_option Suc (statement_index cs))"

definition extractDefinitionFromBackup :: "jsstring \<Rightarrow> jsstring" where
  "extractDefinitionFromBackup text =
     (case lastIndexOf text headerEndMarker of
        Some headerEndIndex \<Rightarrow> drop (headerEndIndex + length headerEndMarker) text
      | None \<Rightarrow>
          (case statement_index text of
             Some index \<Rightarrow> drop index text
           | None \<Rightarrow> text))"

subsection \<open>cleanupOldBackups\<close>

text \<open>
  One round of the loop over \<^verbatim>\<open>toRemove\<close>, on the file system and the log. The
  \<^verbatim>\<open>catch\<close> of the source leaves both as they are when deleting the file throws.
\<close>

definition evict_one :: "BackupEntry \<Rightarrow> store \<times> BackupLog \<Rightarrow> store \<times> BackupLog" where
  "evict_one backup = (\<lambda>(s, log).
     (case (if existsSync s (backup_file backup) then unlinkSync s (backup_file backup) else Inr s) of
        Inl e \<Rightarrow> (s, log)
      | Inr s' \<Rightarrow>
          (case findIndex (\<lambda>b. entry_id b = entry_id backup) (backups log) of
             Some index \<Rightarrow> (s', log\<lparr>backups := splice1 index (backups log)\<rparr>)
           | None \<Rightarrow> (s', log))))"

definition cleanupOldBackups ::
  "runtime \<Rightarrow> store \<Rightarrow> BackupLog \<Rightarrow> jsstring \<Rightarrow> int \<Rightarrow> store \<times> BackupLog" where
  "cleanupOldBackups rt s log objectName maxBackups =
     (let objectBackups =
            filter (\<lambda>b. toLowerCase rt (object_name b) = toLowerCase rt objectName) (backups log)
      in if int (length objectBackups) > maxBackups then
           (let toRemove = slice_from objectBackups maxBackups
            in fold evict_one toRemove (s, log))
         else (s, log))"

subsection \<open>createBackup\<close>

text \<open>
  The body of the \<^verbatim>\<open>try\<close> block, in two parts. \<open>createBackup_write\<close> is the block up
  to \<^verbatim>\<open>log.backups.unshift(entry)\<close>: it gives the file system after the write, the log
  with the new entry in front, and the id and file name of the backup.
  \<open>createBackup_try\<close> goes on with the eviction, the saving of the log and the result.
  \<open>Inl\<close> carries the message of the error thrown and the file system at that point.
  The subdirectory of the new file is one of the six that \<^verbatim>\<open>ensureBackupDirs\<close> has
  made, so the second \<^verbatim>\<open>mkdirSync\<close> has nothing to do.
\<close>

definition createBackup_write ::
  "runtime \<Rightarrow> store \<Rightarrow> jsstring \<Rightarrow> jsstring \<Rightarrow> jsstring \<Rightarrow> jsstring \<Rightarrow> operation \<Rightarrow> jsstring
     \<Rightarrow> jsstring \<times> store + store \<times> BackupLog \<times> jsstring \<times> jsstring" where
  "createBackup_write rt s objectName objectType schemaName defn op db =
     (case ensureBackupDirs s of
        Inl e \<Rightarrow> Inl (e, s)
      | Inr u \<Rightarrow>
          (let backupId = generateBackupId rt;
               backupFilename = generateBackupFilename rt objectName objectType;
               text = formatBackupContent rt objectName objectType schemaName defn op db
           in case writeFileSync s backupFilename text of
                Inl e \<Rightarrow> Inl (e, s)
              | Inr s1 \<Rightarrow>
                  (let log = loadBackupLog rt s1;
                       entry = \<lparr>entry_id = backupId,
                                timestamp = now_iso rt,
                                operation = op,
                                object_type = objectType,
                                object_name = objectName,
                                schema_name = schemaName,
                                database = db,
                                backup_file = backupFilename,
                                file_hash = calculateHash rt text,
                                success = True,
                                error_message = None\<rparr>;
                       log1 = log\<lparr>backups := entry # backups log\<rparr>
                   in Inr (s1, log1, backupId, backupFilename))))"

definition createBackup_try ::
  "BackupConfig \<Rightarrow> runtime \<Rightarrow> store \<Rightarrow> jsstring \<Rightarrow> jsstring \<Rightarrow> jsstring \<Rightarrow> jsstring \<Rightarrow> operation \<Rightarrow> jsstring
     \<Rightarrow> jsstring \<times> store + BackupResult \<times> store" where
  "createBackup_try config rt s objectName objectType schemaName defn op db =
     (case createBackup_write rt s objectName objectType schemaName defn op db of
        Inl (e, s0) \<Rightarrow> Inl (e, s0)
      | Inr (s1, log1, backupId, backupFilename) \<Rightarrow>
          (let (s2, log2) =
                 (if auto_cleanup config
                  then cleanupOldBackups rt s1 log1 objectName (max_backups_per_object config)
                  else (s1, log1))
           in case saveBackupLog rt s2 log2 of
                Inl e \<Rightarrow> Inl (e, s2)
              | Inr s3 \<Rightarrow>
                  Inr (\<lparr>result_success = True,
                        message = asc ''Backup created successfully'',
                        result_file = backupFilename,
                        backup_id = backupId\<rparr>, s3)))"

definition createBackup ::
  "BackupConfig \<Rightarrow> runtime \<Rightarrow> store \<Rightarrow> jsstring \<Rightarrow> jsstring \<Rightarrow> jsstring \<Rightarrow> jsstring \<Rightarrow> operation \<Rightarrow> jsstring
     \<Rightarrow> BackupResult \<times> store" where
  "createBackup config rt s objectName objectType schemaName defn op db =
     (if \<not> enabled config then
        (\<lparr>result_success = False,
          message = asc ''Backup is disabled in configuration'',
          result_file = [],
          backup_id = []\<rparr>, s)
      else
        (case createBackup_try config rt s objectName objectType schemaName defn op db of
           Inr (result, s') \<Rightarrow> (result, s')
         | Inl (errorMessage, s') \<Rightarrow>
             (\<lparr>result_success = False,
               message = asc ''Failed to create backup: '' @ errorMessage,
               result_file = [],
               backup_id = []\<rparr>, s')))"

subsection \<open>listBackups, getBackupById, getBackupContent\<close>

text \<open>
  An optional string argument is \<open>None\<close> for \<^verbatim>\<open>undefined\<close>. The tests
  \<^verbatim>\<open>if (objectName)\<close> and \<^verbatim>\<open>if (!text)\<close> are tests of truthiness: \<^verbatim>\<open>undefined\<close> and the
  empty string are falsy, every other string is truthy.
\<close>

definition truthy :: "jsstring option \<Rightarrow> bool" where
  "truthy x \<longleftrightarrow> (case x of None \<Rightarrow> False | Some text \<Rightarrow> text \<noteq> [])"

definition listBackups ::
  "runtime \<Rightarrow> store \<Rightarrow> jsstring option \<Rightarrow> jsstring option \<Rightarrow> int option \<Rightarrow> BackupEntry list" where
  "listBackups rt s objectName objectType limit =
     (let log = loadBackupLog rt s;
          backups0 = backups log;
          backups1 =
            (if truthy objectName
             then filter (\<lambda>b. toLowerCase rt (object_name b) = toLowerCase rt (the objectName)) backups0
             else backups0);
          backups2 =
            (if truthy objectType
             then (let normalizedType = toUpperCase rt (the objectType)
                   in filter (\<lambda>b. let bType = toUpperCase rt (object_type b)
                                   in str_includes bType normalizedType \<or> str_includes normalizedType bType)
                        backups1)
             else backups1)
      in slice_to backups2 (case limit of None \<Rightarrow> 50 | Some l \<Rightarrow> l))"

definition getBackupById :: "runtime \<Rightarrow> store \<Rightarrow> jsstring \<Rightarrow> BackupEntry option" where
  "getBackupById rt s backupId =
     List.find (\<lambda>b. entry_id b = backupId) (backups (loadBackupLog rt s))"

definition getBackupContent :: "runtime \<Rightarrow> store \<Rightarrow> jsstring \<Rightarrow> jsstring option" where
  "getBackupContent rt s backupId =
     (case getBackupById rt s backupId of
        None \<Rightarrow> None
      | Some backup \<Rightarrow>
          if \<not> existsSync s (backup_file backup) then None
          else (case readFileSync s (backup_file backup) of
                  Inl e \<Rightarrow> None
                | Inr text \<Rightarrow>
                    (case text of
                       [] \<Rightarrow> Some []
                     | c # cs \<Rightarrow> if c = 65279 then Some cs else Some (c # cs))))"

subsection \<open>cleanupByAge\<close>

text \<open>
  \<^verbatim>\<open>cutoffDate = new Date(); cutoffDate.setDate(cutoffDate.getDate() - days)\<close>: the
  clock moved back by \<open>days\<close> days of the local calendar, for a whole number of days.
  The result is \<open>None\<close> when it is an invalid date.
\<close>

definition cutoffDate :: "runtime \<Rightarrow> int \<Rightarrow> int option" where
  "cutoffDate rt days = setDate rt (now_ms rt) (getDate rt (now_ms rt) - days)"

text \<open>
  \<^verbatim>\<open>backupDate < cutoffDate\<close> compares the time values; it is false when the timestamp
  does not parse or the cutoff is an invalid date.
\<close>

definition older_than :: "runtime \<Rightarrow> int option \<Rightarrow> BackupEntry \<Rightarrow> bool" where
  "older_than rt cutoff backup =
     (case date_parse rt (timestamp backup) of
        None \<Rightarrow> False
      | Some backupDate \<Rightarrow>
          (case cutoff of
             None \<Rightarrow> False
           | Some cutoffTime \<Rightarrow> backupDate < cutoffTime))"

text \<open>One round of the loop, on the file system, \<^verbatim>\<open>removed\<close> and \<^verbatim>\<open>toKeep\<close>.\<close>

definition age_step ::
  "runtime \<Rightarrow> int option \<Rightarrow> BackupEntry \<Rightarrow> store \<times> nat \<times> BackupEntry list \<Rightarrow> store \<times> nat \<times> BackupEntry list" where
  "age_step rt cutoff backup = (\<lambda>(s, removed, toKeep).
     if older_than rt cutoff backup then
       (case (if existsSync s (backup_file backup) then unlinkSync s (backup_file backup) else Inr s) of
          Inr s' \<Rightarrow> (s', removed + 1, toKeep)
        | Inl e \<Rightarrow> (s, removed, toKeep @ [backup]))
     else (s, removed, toKeep @ [backup]))"

text \<open>
  \<^verbatim>\<open>cleanupByAge\<close> has no \<^verbatim>\<open>try\<close> around \<^verbatim>\<open>saveBackupLog\<close>: \<open>Inl\<close> is the error it
  throws then, with the file system as the loop left it.
\<close>

definition cleanupByAge :: "runtime \<Rightarrow> store \<Rightarrow> int \<Rightarrow> jsstring \<times> store + nat \<times> store" where
  "cleanupByAge rt s days =
     (let log = loadBackupLog rt s;
          cutoff = cutoffDate rt days;
          (s', removed, toKeep) = fold (age_step rt cutoff) (backups log) (s, 0, [])
      in case saveBackupLog rt s' (log\<lparr>backups := toKeep\<rparr>) of
           Inl e \<Rightarrow> Inl (e, s')
         | Inr s'' \<Rightarrow> Inr (removed, s''))"


subsection \<open>compareBackups (src/backup/diffUtils.ts)\<close>

record VersionInfo =
  version_id :: jsstring
  version_timestamp :: jsstring

record DiffResult = TextDiff +
  diff_object_name :: jsstring
  old_version :: VersionInfo
  new_version :: VersionInfo

text \<open>
  The result \<open>None\<close> is \<^verbatim>\<open>null\<close>. No function that \<^verbatim>\<open>compareBackups\<close> calls throws:
  \<^verbatim>\<open>loadBackupLog\<close> and \<^verbatim>\<open>getBackupContent\<close> catch the errors of the file system.
\<close>

definition compareBackups ::
  "runtime \<Rightarrow> store \<Rightarrow> jsstring \<Rightarrow> jsstring \<Rightarrow> jsstring option \<Rightarrow> DiffResult option" where
  "compareBackups rt s backupIdOld backupIdNew currentDefinition =
     (case getBackupById rt s backupIdOld of
        None \<Rightarrow> None
      | Some oldBackup \<Rightarrow>
          (let oldContent = getBackupContent rt s backupIdOld
           in if \<not> truthy oldContent then None
              else
                (case (if backupIdNew = asc ''current'' then
                         (if \<not> truthy currentDefinition then None
                          else Some (the currentDefinition,
                                     \<lparr>version_id = asc ''current'', version_timestamp = now_iso rt\<rparr>))
                       else
                         (case getBackupById rt s backupIdNew of
                            None \<Rightarrow> None
                          | Some newBackup \<Rightarrow>
                              (let newBackupContent = getBackupContent rt s backupIdNew
                               in if \<not> truthy newBackupContent then None
                                  else Some (extractDefinitionFromBackup (the newBackupContent),
                                             \<lparr>version_id = entry_id newBackup,
                                              version_timestamp = timestamp newBackup\<rparr>)))) of
                   None \<Rightarrow> None
                 | Some (newContent, newBackupInfo) \<Rightarrow>
                     (let oldDefinition = extractDefinitionFromBackup (the oldContent);
                          d = generateDiff oldDefinition newContent
                      in Some \<lparr>diff = diff d,
                               lines_added = lines_added d,
                               lines_removed = lines_removed d,
                               is_identical = is_identical d,
                               diff_object_name = object_name oldBackup,
                               old_version = \<lparr>version_id = entry_id oldBackup,
                                              version_timestamp = timestamp oldBackup\<rparr>,
                               new_version = newBackupInfo\<rparr>))))"


section \<open>A runtime, entries and stores for the worked examples\<close>

text \<open>
  The case mappings of the example runtime are the ASCII ones, and its clock stands at
  2024-03-10T12:00:00.000Z. It parses the three timestamps that the example entries
  carry. For the digest stands the sum of the code units, written in base 36. Its zone
  is UTC, with the calendar of March 2024: the day of the month counts the days from
  the first of March, and \<open>setDate\<close> moves a time value by whole days of 86400000
  milliseconds, inside the range of dates.
\<close>

definition example_getDate :: "int \<Rightarrow> int" where
  "example_getDate t = (t - 1709251200000) div 86400000 + 1"

definition example_setDate :: "int \<Rightarrow> int \<Rightarrow> int option" where
  "example_setDate t d =
     (let t' = t + (d - example_getDate t) * 86400000
      in if - 8640000000000000 \<le> t' \<and> t' \<le> 8640000000000000 then Some t' else None)"

definition example_dates :: "jsstring \<Rightarrow> int option" where
  "example_dates t =
     (if t = asc ''2024-03-10T12:00:00.000Z'' then Some 1710072000000
      else if t = asc ''2024-03-03T12:00:00.000Z'' then Some 1709467200000
      else if t = asc ''2024-01-01T00:00:00.000Z'' then Some 1704067200000
      else None)"

definition example_runtime :: runtime where
  "example_runtime =
     \<lparr>now_iso = asc ''2024-03-10T12:00:00.000Z'',
      now_ms = 1710072000000,
      random36 = asc ''k3x9qz'',
      sha256_hex = (\<lambda>t. digits36 (sum_list t)),
      date_parse = example_dates,
      toLowerCase = map ascii_lower,
      toUpperCase = map ascii_upper,
      getDate = example_getDate,
      setDate = example_setDate\<rparr>"

definition example_entry :: "string \<Rightarrow> string \<Rightarrow> string \<Rightarrow> string \<Rightarrow> BackupEntry" where
  "example_entry i name file ts =
     \<lparr>entry_id = asc i,
      timestamp = asc ts,
      operation = ALTER,
      object_type = asc ''SQL_STORED_PROCEDURE'',
      object_name = asc name,
      schema_name = asc ''dbo'',
      database = asc ''sales'',
      backup_file = asc file,
      file_hash = asc ''sha256:1es0'',
      success = True,
      error_message = None\<rparr>"

definition example_store :: "BackupEntry list \<Rightarrow> (jsstring \<times> jsstring) list \<Rightarrow> store" where
  "example_store entries contents =
     \<lparr>log_file = Some \<lparr>version = asc ''1.0'',
                        created_at = asc ''2024-01-01T00:00:00.000Z'',
                        updated_at = asc ''2024-03-03T12:00:00.000Z'',
                        backups = entries\<rparr>,
      files = map_of contents,
      mkdir_error = None,
      write_error = Map.empty,
      log_write_error = None,
      unlink_error = Map.empty,
      read_error = Map.empty\<rparr>"

text \<open>
  A log of eight entries, newest first: five for the object \<open>foo\<close> in varying case and
  three for other objects, each with its content file.
\<close>

definition example_entries :: "BackupEntry list" where
  "example_entries =
     [example_entry ''bkp_8'' ''Foo'' ''procedures/Foo_8.sql'' ''2024-03-10T12:00:00.000Z'',
      example_entry ''bkp_7'' ''bar'' ''procedures/bar_7.sql'' ''2024-03-10T12:00:00.000Z'',
      example_entry ''bkp_6'' ''FOO'' ''procedures/FOO_6.sql'' ''2024-03-10T12:00:00.000Z'',
      example_entry ''bkp_5'' ''baz'' ''procedures/baz_5.sql'' ''2024-03-03T12:00:00.000Z'',
      example_entry ''bkp_4'' ''foo'' ''procedures/foo_4.sql'' ''2024-03-03T12:00:00.000Z'',
      example_entry ''bkp_3'' ''fOo'' ''procedures/fOo_3.sql'' ''2024-03-03T12:00:00.000Z'',
      example_entry ''bkp_2'' ''qux'' ''procedures/qux_2.sql'' ''2024-01-01T00:00:00.000Z'',
      example_entry ''bkp_1'' ''foO'' ''procedures/foO_1.sql'' ''2024-01-01T00:00:00.000Z'']"

definition example_files :: "(jsstring \<times> jsstring) list" where
  "example_files =
     map (\<lambda>b. (backup_file b, UTF8_BOM # asc ''SELECT 1'')) example_entries"

text \<open>
  The same store with a content file that cannot be deleted, with a log that cannot be
  written, and with a content file that holds nothing but the byte-order mark.
\<close>

definition example_store_undeletable :: store where
  "example_store_undeletable =
     (example_store example_entries example_files)
       \<lparr>unlink_error := [asc ''procedures/foO_1.sql'' \<mapsto> asc ''EPERM: operation not permitted'']\<rparr>"

definition example_store_log_readonly :: store where
  "example_store_log_readonly =
     (example_store example_entries example_files)
       \<lparr>log_write_error := Some (asc ''EACCES: permission denied'')\<rparr>"

definition example_store_empty_file :: store where
  "example_store_empty_file =
     example_store example_entries [(asc ''procedures/Foo_8.sql'', [UTF8_BOM])]"

text \<open>
  The same runtime in the zone of New York, for time values around the tenth of March
  2024: local time is five hours behind UTC before 07:00 UTC of that day and four hours
  behind from then on.
\<close>

definition new_york_local :: "int \<Rightarrow> int" where
  "new_york_local t = (if t < 1710054000000 then t - 18000000 else t - 14400000)"

definition new_york_utc :: "int \<Rightarrow> int" where
  "new_york_utc l = (if l + 18000000 < 1710054000000 then l + 18000000 else l + 14400000)"

definition new_york_getDate :: "int \<Rightarrow> int" where
  "new_york_getDate t = (new_york_local t - 1709251200000) div 86400000 + 1"

definition new_york_setDate :: "int \<Rightarrow> int \<Rightarrow> int option" where
  "new_york_setDate t d =
     (let t' = new_york_utc (new_york_local t + (d - new_york_getDate t) * 86400000)
      in if - 8640000000000000 \<le> t' \<and> t' \<le> 8640000000000000 then Some t' else None)"

definition example_runtime_new_york :: runtime where
  "example_runtime_new_york =
     example_runtime\<lparr>getDate := new_york_getDate, setDate := new_york_setDate\<rparr>"



section \<open>Auxiliary definitions of the statements and proofs\<close>

fun lcs_len :: "jsstring list \<Rightarrow> jsstring list \<Rightarrow> nat \<Rightarrow> nat \<Rightarrow> nat" where
  "lcs_len xs ys 0 j = 0"
| "lcs_len xs ys (Suc i) 0 = 0"
| "lcs_len xs ys (Suc i) (Suc j) =
     (if xs ! i = ys ! j then lcs_len xs ys i j + 1
      else max (lcs_len xs ys i (Suc j)) (lcs_len xs ys (Suc i) j))"

definition filled :: "jsstring list \<Rightarrow> jsstring list \<Rightarrow> nat \<Rightarrow> nat \<Rightarrow> nat list list \<Rightarrow> bool" where
  "filled xs ys i j dp \<longleftrightarrow>
     length dp = length xs + 1 \<and>
     (\<forall>r \<le> length xs. length (dp ! r) = length ys + 1) \<and>
     (\<forall>r \<le> length xs. \<forall>c \<le> length ys.
        dp ! r ! c = (if r < i \<or> (r = i \<and> c \<le> j) then lcs_len xs ys r c else 0))"

definition count_type :: "line_type \<Rightarrow> DiffLine list \<Rightarrow> nat" where
  "count_type t ls = length (filter (\<lambda>l. type l = t) ls)"


text \<open>
  The test of \<^verbatim>\<open>cleanupOldBackups\<close> for the entries of an object, and the entries whose
  file is there and cannot be deleted.
\<close>

definition same_object :: "runtime \<Rightarrow> jsstring \<Rightarrow> BackupEntry \<Rightarrow> bool" where
  "same_object rt objectName b \<longleftrightarrow> toLowerCase rt (object_name b) = toLowerCase rt objectName"

definition unlink_throws :: "store \<Rightarrow> BackupEntry \<Rightarrow> bool" where
  "unlink_throws s b \<longleftrightarrow> existsSync s (backup_file b) \<and> unlink_error s (backup_file b) \<noteq> None"

text \<open>
  A backup whose content \<^verbatim>\<open>compareBackups\<close> cannot use: the id is not in the log, or
  the content file is absent, cannot be read, or holds nothing after an optional
  byte-order mark.
\<close>

definition content_unusable :: "runtime \<Rightarrow> store \<Rightarrow> jsstring \<Rightarrow> bool" where
  "content_unusable rt s backupId \<longleftrightarrow>
     (case getBackupById rt s backupId of
        None \<Rightarrow> True
      | Some b \<Rightarrow>
          files s (backup_file b) = None \<or> read_error s (backup_file b) \<noteq> None
          \<or> files s (backup_file b) = Some [] \<or> files s (backup_file b) = Some [UTF8_BOM])"

text \<open>
  \<^verbatim>\<open>generateDiff\<close> with the computation of the table as a parameter; with \<open>lcs\<close> for
  it, it is \<^verbatim>\<open>generateDiff\<close>.
\<close>

definition generateDiff_with ::
  "(jsstring list \<Rightarrow> jsstring list \<Rightarrow> nat list list) \<Rightarrow> jsstring \<Rightarrow> jsstring \<Rightarrow> TextDiff" where
  "generateDiff_with table oldText newText =
     (let oldLines = split_on nl oldText;
          newLines = split_on nl newText
      in if oldText = newText then
           \<lparr>diff = asc ''(No changes)'', lines_added = 0, lines_removed = 0, is_identical = True\<rparr>
         else
           (let dp = table oldLines newLines;
                diffLines = backtrack dp oldLines newLines (length oldLines) (length newLines);
                (diffOutput, linesAdded, linesRemoved) =
                  fold diff_step diffLines ([asc ''--- old'', asc ''+++ new'', []], 0, 0)
            in \<lparr>diff = join [nl] diffOutput, lines_added = linesAdded,
                lines_removed = linesRemoved, is_identical = False\<rparr>))"

text \<open>
  The entry that \<^verbatim>\<open>createBackup\<close> puts in front of the log: its id, file name and hash
  are those of the call.
\<close>

definition new_entry ::
  "runtime \<Rightarrow> jsstring \<Rightarrow> jsstring \<Rightarrow> jsstring \<Rightarrow> jsstring \<Rightarrow> operation \<Rightarrow> jsstring \<Rightarrow> BackupEntry" where
  "new_entry rt objectName objectType schemaName defn op db =
     \<lparr>entry_id = generateBackupId rt,
      timestamp = now_iso rt,
      operation = op,
      object_type = objectType,
      object_name = objectName,
      schema_name = schemaName,
      database = db,
      backup_file = generateBackupFilename rt objectName objectType,
      file_hash = calculateHash rt (formatBackupContent rt objectName objectType schemaName defn op db),
      success = True,
      error_message = None\<rparr>"


section \<open>Properties of the diff engine\<close>

lemma lcs_len_0_right [simp]: "lcs_len xs ys i 0 = 0"
  by (cases i) simp_all

lemma lcs_len_sym: "lcs_len xs ys i j = lcs_len ys xs j i"
  by (induction xs ys i j rule: lcs_len.induct) (auto simp: max.commute)

lemma lcs_len_le: "lcs_len xs ys i j \<le> i \<and> lcs_len xs ys i j \<le> j"
  by (induction xs ys i j rule: lcs_len.induct) auto

lemma filled_init: "filled xs ys 0 (length ys) (replicate (length xs + 1) (replicate (length ys + 1) 0))"
  by (simp add: filled_def less_Suc_eq_le del: replicate.simps)

lemma filled_next_row: "filled xs ys i (length ys) dp \<Longrightarrow> filled xs ys (Suc i) 0 dp"
  unfolding filled_def by (auto simp: less_Suc_eq)

lemma filled_cell:
  assumes "filled xs ys (Suc i) j dp" "Suc i \<le> length xs" "Suc j \<le> length ys"
  shows "filled xs ys (Suc i) (Suc j) (lcs_cell xs ys (Suc i) (Suc j) dp)"
proof -
  from assms have len: "length dp = length xs + 1"
    and rows: "\<And>r. r \<le> length xs \<Longrightarrow> length (dp ! r) = length ys + 1"
    and cells: "\<And>r c. r \<le> length xs \<Longrightarrow> c \<le> length ys \<Longrightarrow>
        dp ! r ! c = (if r < Suc i \<or> (r = Suc i \<and> c \<le> j) then lcs_len xs ys r c else 0)"
    by (auto simp: filled_def)
  have a: "dp ! i ! j = lcs_len xs ys i j" using cells[of i j] assms by simp
  have b: "dp ! i ! Suc j = lcs_len xs ys i (Suc j)" using cells[of i "Suc j"] assms by simp
  have c: "dp ! Suc i ! j = lcs_len xs ys (Suc i) j" using cells[of "Suc i" j] assms by simp
  define v where "v = lcs_len xs ys (Suc i) (Suc j)"
  have upd: "lcs_cell xs ys (Suc i) (Suc j) dp = dp[Suc i := (dp ! Suc i)[Suc j := v]]"
    by (simp add: lcs_cell_def a b c v_def)
  show ?thesis
    unfolding upd filled_def
  proof (intro conjI allI impI)
    show "length (dp[Suc i := (dp ! Suc i)[Suc j := v]]) = length xs + 1" by (simp add: len)
  next
    fix r assume "r \<le> length xs"
    then show "length (dp[Suc i := (dp ! Suc i)[Suc j := v]] ! r) = length ys + 1"
      using rows len by (cases "r = Suc i") simp_all
  next
    fix r c assume rc: "r \<le> length xs" "c \<le> length ys"
    show "dp[Suc i := (dp ! Suc i)[Suc j := v]] ! r ! c =
            (if r < Suc i \<or> r = Suc i \<and> c \<le> Suc j then lcs_len xs ys r c else 0)"
    proof (cases "r = Suc i")
      case True
      then show ?thesis
        using rc rows[of r] len cells[of r c] assms(2,3)
        by (cases "c = Suc j") (auto simp: v_def nth_list_update le_Suc_eq)
    next
      case False
      then show ?thesis using rc len cells[of r c] by auto
    qed
  qed
qed

lemma filled_inner:
  "filled xs ys (Suc i) 0 dp \<Longrightarrow> Suc i \<le> length xs \<Longrightarrow> k \<le> length ys \<Longrightarrow>
   filled xs ys (Suc i) k (fold (lcs_cell xs ys (Suc i)) [1..<k + 1] dp)"
proof (induction k)
  case 0
  then show ?case by simp
next
  case (Suc k)
  then have "filled xs ys (Suc i) k (fold (lcs_cell xs ys (Suc i)) [1..<k + 1] dp)" by simp
  from filled_cell[OF this] Suc.prems show ?case by simp
qed

lemma filled_outer:
  "k \<le> length xs \<Longrightarrow>
   filled xs ys k (length ys)
     (fold (\<lambda>i. fold (lcs_cell xs ys i) [1..<length ys + 1]) [1..<k + 1]
        (replicate (length xs + 1) (replicate (length ys + 1) 0)))"
proof (induction k)
  case 0
  then show ?case using filled_init by simp
next
  case (Suc k)
  then have "filled xs ys (Suc k) 0 (fold (\<lambda>i. fold (lcs_cell xs ys i) [1..<length ys + 1]) [1..<k + 1]
        (replicate (length xs + 1) (replicate (length ys + 1) 0)))"
    using filled_next_row by simp
  from filled_inner[OF this, of "length ys"] Suc.prems show ?case by simp
qed

lemma lcs_table:
  assumes "i \<le> length xs" "j \<le> length ys"
  shows "lcs xs ys ! i ! j = lcs_len xs ys i j"
proof -
  have "filled xs ys (length xs) (length ys) (lcs xs ys)"
    using filled_outer[of "length xs" xs ys] by (simp add: lcs_def Let_def)
  then show ?thesis using assms by (auto simp: filled_def)
qed


lemma count_type_snoc [simp]:
  "count_type t (ls @ [l]) = count_type t ls + (if type l = t then 1 else 0)"
  by (simp add: count_type_def)

lemma count_type_rev [simp]: "count_type t (rev ls) = count_type t ls"
  by (simp add: count_type_def flip: rev_filter)

lemma count_type_Nil [simp]: "count_type t [] = 0"
  by (simp add: count_type_def)

lemma backtrack_loop_counts:
  "(\<forall>r c. r \<le> length xs \<longrightarrow> c \<le> length ys \<longrightarrow> dp ! r ! c = lcs_len xs ys r c) \<Longrightarrow>
   i \<le> length xs \<Longrightarrow> j \<le> length ys \<Longrightarrow>
   count_type added (backtrack_loop dp xs ys i j acc) + lcs_len xs ys i j = count_type added acc + j \<and>
   count_type removed (backtrack_loop dp xs ys i j acc) + lcs_len xs ys i j = count_type removed acc + i"
proof (induction dp xs ys i j acc rule: backtrack_loop.induct)
  case (1 dp xs ys i j acc)
  from "1.prems"(1) have tab: "\<And>r c. r \<le> length xs \<Longrightarrow> c \<le> length ys \<Longrightarrow> dp ! r ! c = lcs_len xs ys r c"
    by blast
  note lens = "1.prems"(2,3)
  let ?U = "\<lparr>type = unchanged, lineNumber = \<lparr>old = Some i, new = Some j\<rparr>, content = xs ! (i - 1)\<rparr>"
  let ?A = "\<lparr>type = added, lineNumber = \<lparr>old = None, new = Some j\<rparr>, content = ys ! (j - 1)\<rparr>"
  let ?R = "\<lparr>type = removed, lineNumber = \<lparr>old = Some i, new = None\<rparr>, content = xs ! (i - 1)\<rparr>"
  show ?case
  proof (cases "i > 0 \<or> j > 0")
    case False
    then have "backtrack_loop dp xs ys i j acc = acc"
      by (subst backtrack_loop.simps) simp
    with False show ?thesis by simp
  next
    case nonzero: True
    show ?thesis
    proof (cases "i > 0 \<and> j > 0 \<and> xs ! (i - 1) = ys ! (j - 1)")
      case True
      then obtain i' j' where ij: "i = Suc i'" "j = Suc j'"
        by (metis Suc_pred)
      have unf: "backtrack_loop dp xs ys i j acc = backtrack_loop dp xs ys (i - 1) (j - 1) (acc @ [?U])"
        by (subst backtrack_loop.simps) (use True in simp)
      have L: "lcs_len xs ys i j = lcs_len xs ys (i - 1) (j - 1) + 1"
        using True ij by simp
      have "count_type added (backtrack_loop dp xs ys (i - 1) (j - 1) (acc @ [?U])) + lcs_len xs ys (i - 1) (j - 1)
             = count_type added (acc @ [?U]) + (j - 1) \<and>
            count_type removed (backtrack_loop dp xs ys (i - 1) (j - 1) (acc @ [?U])) + lcs_len xs ys (i - 1) (j - 1)
             = count_type removed (acc @ [?U]) + (i - 1)"
        using "1.IH"(1)[OF nonzero True "1.prems"(1)] lens by simp
      then show ?thesis
        unfolding unf L using True by simp
    next
      case neq: False
      show ?thesis
      proof (cases "j > 0 \<and> (i = 0 \<or> dp ! i ! (j - 1) \<ge> dp ! (i - 1) ! j)")
        case True
        then obtain j' where j: "j = Suc j'" by (metis Suc_pred)
        have unf: "backtrack_loop dp xs ys i j acc = backtrack_loop dp xs ys i (j - 1) (acc @ [?A])"
          by (subst backtrack_loop.simps) (use True neq in auto)
        have L: "lcs_len xs ys i j = lcs_len xs ys i (j - 1)"
        proof (cases i)
          case 0
          then show ?thesis by simp
        next
          case (Suc i')
          have "dp ! Suc i' ! j' \<ge> dp ! i' ! Suc j'" using True Suc j by simp
          moreover have "i' \<le> length xs" "j' \<le> length ys" "Suc i' \<le> length xs" "Suc j' \<le> length ys"
            using lens Suc j by simp_all
          ultimately have "lcs_len xs ys (Suc i') j' \<ge> lcs_len xs ys i' (Suc j')" by (simp add: tab)
          with neq Suc j show ?thesis by simp
        qed
        have "count_type added (backtrack_loop dp xs ys i (j - 1) (acc @ [?A])) + lcs_len xs ys i (j - 1)
             = count_type added (acc @ [?A]) + (j - 1) \<and>
            count_type removed (backtrack_loop dp xs ys i (j - 1) (acc @ [?A])) + lcs_len xs ys i (j - 1)
             = count_type removed (acc @ [?A]) + i"
          using "1.IH"(2)[OF nonzero neq True "1.prems"(1)] lens by simp
        then show ?thesis
          unfolding unf L using True by simp
      next
        case notadd: False
        with nonzero have ipos: "i > 0" by auto
        then obtain i' where i: "i = Suc i'" by (metis Suc_pred)
        have unf: "backtrack_loop dp xs ys i j acc = backtrack_loop dp xs ys (i - 1) j (acc @ [?R])"
          by (subst backtrack_loop.simps) (use notadd neq ipos in auto)
        have L: "lcs_len xs ys i j = lcs_len xs ys (i - 1) j"
        proof (cases j)
          case 0
          then show ?thesis by simp
        next
          case (Suc j')
          have "dp ! Suc i' ! j' < dp ! i' ! Suc j'" using notadd Suc i by simp
          moreover have "i' \<le> length xs" "j' \<le> length ys" "Suc i' \<le> length xs" "Suc j' \<le> length ys"
            using lens Suc i by simp_all
          ultimately have "lcs_len xs ys (Suc i') j' < lcs_len xs ys i' (Suc j')" by (simp add: tab)
          with neq Suc i show ?thesis by simp
        qed
        have "count_type added (backtrack_loop dp xs ys (i - 1) j (acc @ [?R])) + lcs_len xs ys (i - 1) j
             = count_type added (acc @ [?R]) + j \<and>
            count_type removed (backtrack_loop dp xs ys (i - 1) j (acc @ [?R])) + lcs_len xs ys (i - 1) j
             = count_type removed (acc @ [?R]) + (i - 1)"
          using "1.IH"(3)[OF nonzero neq notadd ipos "1.prems"(1)] lens by simp
        then show ?thesis
          unfolding unf L using ipos by simp
      qed
    qed
  qed
qed

lemma fold_diff_step_counts:
  "fold diff_step ls (out, a, r) = (out', a', r') \<Longrightarrow>
   a' = a + count_type added ls \<and> r' = r + count_type removed ls"
proof (induction ls arbitrary: out a r)
  case Nil
  then show ?case by simp
next
  case (Cons l ls)
  show ?case
  proof (cases "type l")
    case unchanged
    with Cons.prems Cons.IH[of "out @ [asc ''  '' @ content l]" a r]
    show ?thesis by (simp add: count_type_def)
  next
    case added
    with Cons.prems Cons.IH[of "out @ [asc ''+ '' @ content l]" "a + 1" r]
    show ?thesis by (simp add: count_type_def)
  next
    case removed
    with Cons.prems Cons.IH[of "out @ [asc ''- '' @ content l]" a "r + 1"]
    show ?thesis by (simp add: count_type_def)
  qed
qed

lemma generateDiff_counts:
  assumes "oldText \<noteq> newText"
  shows "lines_added (generateDiff oldText newText)
           + lcs_len (split_on nl oldText) (split_on nl newText)
               (length (split_on nl oldText)) (length (split_on nl newText))
         = length (split_on nl newText)"
    and "lines_removed (generateDiff oldText newText)
           + lcs_len (split_on nl oldText) (split_on nl newText)
               (length (split_on nl oldText)) (length (split_on nl newText))
         = length (split_on nl oldText)"
proof -
  let ?xs = "split_on nl oldText" and ?ys = "split_on nl newText"
  let ?ls = "backtrack (lcs ?xs ?ys) ?xs ?ys (length ?xs) (length ?ys)"
  obtain out a r where f: "fold diff_step ?ls ([asc ''--- old'', asc ''+++ new'', []], 0, 0) = (out, a, r)"
    by (metis prod_cases3)
  from fold_diff_step_counts[OF f]
  have ar: "a = count_type added ?ls" "r = count_type removed ?ls" by simp_all
  have g: "lines_added (generateDiff oldText newText) = a" "lines_removed (generateDiff oldText newText) = r"
    using assms f by (simp_all add: generateDiff_def Let_def)
  have "\<forall>r c. r \<le> length ?xs \<longrightarrow> c \<le> length ?ys \<longrightarrow> lcs ?xs ?ys ! r ! c = lcs_len ?xs ?ys r c"
    by (simp add: lcs_table)
  from backtrack_loop_counts[OF this, of "length ?xs" "length ?ys" "[]"]
  show "lines_added (generateDiff oldText newText) + lcs_len ?xs ?ys (length ?xs) (length ?ys) = length ?ys"
    and "lines_removed (generateDiff oldText newText) + lcs_len ?xs ?ys (length ?xs) (length ?ys) = length ?xs"
    by (simp_all add: g ar backtrack_def)
qed

lemma generateDiff_with_lcs: "generateDiff_with lcs = generateDiff"
  by (simp add: fun_eq_iff generateDiff_with_def generateDiff_def)


section \<open>Properties of the provenance header\<close>

lemma str_includes_sublist: "str_includes s t \<longleftrightarrow> sublist t s"
  by (induction s) (auto simp: sublist_Cons_right)

lemma lastIndexOf_None: "lastIndexOf s t = None \<longleftrightarrow> \<not> sublist t s"
  by (induction s) (auto simp: sublist_Cons_right split: option.splits)

lemma lastIndexOf_prepend:
  "lastIndexOf s t = Some k \<Longrightarrow> lastIndexOf (p @ s) t = Some (length p + k)"
  by (induction p) auto

lemma lastIndexOf_at_front:
  assumes "t \<noteq> []" "\<not> sublist t (tl t @ d)"
  shows "lastIndexOf (t @ d) t = Some 0"
proof -
  from assms(1) obtain c cs where t: "t = c # cs" by (cases t) auto
  with assms(2) have "lastIndexOf (cs @ d) (c # cs) = None"
    by (simp add: lastIndexOf_None)
  then show ?thesis by (simp add: t)
qed

lemma sublist_append_cases:
  "sublist t (xs @ ys) \<Longrightarrow> sublist t ys \<or> (\<exists>i < length xs. prefix t (drop i xs @ ys))"
proof (induction xs)
  case Nil
  then show ?case by simp
next
  case (Cons x xs)
  from Cons.prems have "prefix t (x # xs @ ys) \<or> sublist t (xs @ ys)"
    by (simp add: sublist_Cons_right)
  then show ?case
  proof
    assume "prefix t (x # xs @ ys)"
    then have "\<exists>i < length (x # xs). prefix t (drop i (x # xs) @ ys)"
      by (intro exI[of _ 0]) simp
    then show ?thesis by blast
  next
    assume "sublist t (xs @ ys)"
    from Cons.IH[OF this] show ?thesis
    proof
      assume "sublist t ys" then show ?thesis by blast
    next
      assume "\<exists>i<length xs. prefix t (drop i xs @ ys)"
      then obtain i where "i < length xs" "prefix t (drop i xs @ ys)" by blast
      then have "Suc i < length (x # xs) \<and> prefix t (drop (Suc i) (x # xs) @ ys)" by simp
      then show ?thesis by blast
    qed
  qed
qed

lemma headerEndMarker_eq: "headerEndMarker = replicate 60 61 @ [10, 42, 47, 10, 10]"
  by code_simp

lemma prefix_nth: "prefix t x \<Longrightarrow> i < length t \<Longrightarrow> x ! i = t ! i"
  by (auto simp: prefix_def nth_append)

lemma marker_no_overlap:
  assumes "1 \<le> k" "k \<le> 64"
  shows "\<not> prefix headerEndMarker (drop k headerEndMarker @ d)"
proof
  assume p: "prefix headerEndMarker (drop k headerEndMarker @ d)"
  show False
  proof (cases "k \<le> 60")
    case True
    have "drop k headerEndMarker @ d = replicate (60 - k) 61 @ [10, 42, 47, 10, 10] @ d"
      using True by (simp add: headerEndMarker_eq)
    then have "(drop k headerEndMarker @ d) ! (60 - k) = 10"
      by (simp add: nth_append)
    moreover have "headerEndMarker ! (60 - k) = 61"
      using assms(1) True by (simp add: headerEndMarker_eq nth_append)
    moreover have "60 - k < length headerEndMarker"
      by (simp add: headerEndMarker_eq)
    ultimately show False using prefix_nth[OF p, of "60 - k"] by simp
  next
    case False
    with assms have "k = 61 \<or> k = 62 \<or> k = 63 \<or> k = 64" by arith
    then have "(drop k headerEndMarker @ d) ! 0 \<noteq> 61"
      by (auto simp: headerEndMarker_eq)
    moreover have "headerEndMarker ! 0 = 61"
      by (simp add: headerEndMarker_eq nth_append)
    moreover have "0 < length headerEndMarker"
      by (simp add: headerEndMarker_eq)
    ultimately show False using prefix_nth[OF p, of 0] by simp
  qed
qed

lemma marker_not_in_tail:
  assumes "\<not> sublist headerEndMarker d"
  shows "\<not> sublist headerEndMarker (tl headerEndMarker @ d)"
proof
  assume "sublist headerEndMarker (tl headerEndMarker @ d)"
  from sublist_append_cases[OF this] assms
  obtain i where i: "i < length (tl headerEndMarker)"
    "prefix headerEndMarker (drop i (tl headerEndMarker) @ d)" by blast
  have "length (tl headerEndMarker) = 64" by (simp add: headerEndMarker_eq)
  with i have "1 \<le> Suc i" "Suc i \<le> 64" by simp_all
  moreover have "drop i (tl headerEndMarker) = drop (Suc i) headerEndMarker"
    by (simp add: drop_Suc)
  ultimately show False using marker_no_overlap[of "Suc i" d] i(2) by simp
qed

lemma extract_after_marker:
  assumes "\<not> sublist headerEndMarker d"
  shows "extractDefinitionFromBackup (p @ headerEndMarker @ d) = d"
proof -
  have "headerEndMarker \<noteq> []" by (simp add: headerEndMarker_eq)
  from lastIndexOf_at_front[OF this marker_not_in_tail[OF assms]]
  have "lastIndexOf (p @ headerEndMarker @ d) headerEndMarker = Some (length p + 0)"
    by (rule lastIndexOf_prepend)
  then show ?thesis by (simp add: extractDefinitionFromBackup_def)
qed

lemma formatBackupContent_shape:
  "\<exists>p. formatBackupContent rt objectName objectType schemaName defn op db = p @ headerEndMarker @ defn"
proof -
  let ?p = "UTF8_BOM # asc ''/*'' @ [nl] @
            rule_line @ [nl] @
            asc ''BACKUP AUTOM'' @ [193] @ asc ''TICO - MCP SQL Server'' @ [nl] @
            rule_line @ [nl] @
            asc ''Objeto:      '' @ objectName @ [nl] @
            asc ''Tipo:        '' @ objectType @ [nl] @
            asc ''Schema:      '' @ schemaName @ [nl] @
            asc ''Fecha:       '' @ strip_fraction (replace_first 84 (asc '' '') (now_iso rt)) @ [nl] @
            asc ''Operaci'' @ [243] @ asc ''n:   '' @ operation_text op @ [nl] @
            asc ''Base Datos:  '' @ db @ [nl] @
            rule_line @ [nl] @
            asc ''PARA RESTAURAR: Ejecute el contenido de este archivo en SSMS'' @ [nl]"
  have "formatBackupContent rt objectName objectType schemaName defn op db = ?p @ headerEndMarker @ defn"
    by (simp add: formatBackupContent_def headerEndMarker_def rule_line_def Let_def)
  then show ?thesis by blast
qed


section \<open>Properties of eviction\<close>

lemma findIndex_None: "findIndex p xs = None \<longleftrightarrow> (\<forall>x \<in> set xs. \<not> p x)"
  by (induction xs) auto

lemma splice1_findIndex:
  "findIndex p xs = Some i \<Longrightarrow> length (filter p xs) \<le> 1 \<Longrightarrow> splice1 i xs = filter (\<lambda>x. \<not> p x) xs"
proof (induction xs arbitrary: i)
  case Nil
  then show ?case by simp
next
  case (Cons x xs)
  show ?case
  proof (cases "p x")
    case True
    with Cons.prems have "i = 0" "filter p xs = []" by simp_all
    then have "filter (\<lambda>x. \<not> p x) xs = xs"
      by (simp add: filter_empty_conv)
    with True \<open>i = 0\<close> show ?thesis by (simp add: splice1_def)
  next
    case False
    with Cons.prems obtain j where j: "findIndex p xs = Some j" "i = Suc j" by auto
    from Cons.prems False have "length (filter p xs) \<le> 1" by simp
    from Cons.IH[OF j(1) this] False j(2) show ?thesis by (simp add: splice1_def)
  qed
qed

lemma distinct_ids_filter: "distinct (map entry_id xs) \<Longrightarrow> length (filter (\<lambda>b. entry_id b = k) xs) \<le> 1"
proof (induction xs)
  case Nil
  then show ?case by simp
next
  case (Cons x xs)
  show ?case
  proof (cases "entry_id x = k")
    case True
    with Cons.prems have "k \<notin> entry_id ` set xs" by simp
    then have "\<forall>b \<in> set xs. entry_id b \<noteq> k" by blast
    then have "filter (\<lambda>b. entry_id b = k) xs = []" by (simp add: filter_empty_conv)
    with True show ?thesis by simp
  next
    case False
    with Cons show ?thesis by simp
  qed
qed

lemma remove_by_id:
  assumes "distinct (map entry_id xs)"
  shows "(case findIndex (\<lambda>b. entry_id b = k) xs of Some index \<Rightarrow> splice1 index xs | None \<Rightarrow> xs)
         = filter (\<lambda>b. entry_id b \<noteq> k) xs"
proof (cases "findIndex (\<lambda>b. entry_id b = k) xs")
  case None
  then have "\<forall>b \<in> set xs. entry_id b \<noteq> k" by (simp add: findIndex_None)
  then have "filter (\<lambda>b. entry_id b \<noteq> k) xs = xs" by (simp add: filter_id_conv)
  with None show ?thesis by simp
next
  case (Some i)
  from splice1_findIndex[OF Some distinct_ids_filter[OF assms]] Some show ?thesis by simp
qed

text \<open>
  A round of the eviction loop leaves store and log as they are when the deletion
  throws, and removes file and entry otherwise.
\<close>

lemma evict_one_throws:
  "unlink_throws s r \<Longrightarrow> evict_one r (s, log) = (s, log)"
  by (auto simp: evict_one_def unlink_throws_def unlinkSync_def existsSync_def split: option.splits)

lemma evict_one_deletes:
  assumes "\<not> unlink_throws s r" "distinct (map entry_id (backups log))"
  shows "evict_one r (s, log) =
           (s\<lparr>files := (files s)(backup_file r := None)\<rparr>,
            log\<lparr>backups := filter (\<lambda>b. entry_id b \<noteq> entry_id r) (backups log)\<rparr>)"
proof -
  have s': "(if existsSync s (backup_file r) then unlinkSync s (backup_file r) else Inr s)
            = Inr (s\<lparr>files := (files s)(backup_file r := None)\<rparr>)"
    using assms(1)
    by (auto simp: unlink_throws_def unlinkSync_def existsSync_def fun_upd_idem split: option.splits)
  have "backups (snd (evict_one r (s, log))) = filter (\<lambda>b. entry_id b \<noteq> entry_id r) (backups log)"
    using remove_by_id[OF assms(2), of "entry_id r"]
    by (simp add: evict_one_def s' split: option.splits)
  then show ?thesis
    by (simp add: evict_one_def s' split: option.splits)
qed

lemma unlink_throws_after_delete:
  "\<not> unlink_throws s r \<Longrightarrow> unlink_throws (s\<lparr>files := (files s)(backup_file r := None)\<rparr>) b = unlink_throws s b"
  by (auto simp: unlink_throws_def existsSync_def)

lemma fold_evict_one:
  "distinct (map entry_id (backups log)) \<Longrightarrow>
   fold evict_one rs (s, log) =
     (s\<lparr>files := (\<lambda>p. if \<exists>r \<in> set rs. \<not> unlink_throws s r \<and> backup_file r = p then None else files s p)\<rparr>,
      log\<lparr>backups := filter (\<lambda>b. \<forall>r \<in> set rs. \<not> unlink_throws s r \<longrightarrow> entry_id b \<noteq> entry_id r) (backups log)\<rparr>)"
proof (induction rs arbitrary: s log)
  case Nil
  then show ?case by simp
next
  case (Cons r rs)
  show ?case
  proof (cases "unlink_throws s r")
    case True
    have "fold evict_one (r # rs) (s, log) = fold evict_one rs (s, log)"
      by (simp add: evict_one_throws[OF True])
    also note Cons.IH[OF Cons.prems]
    finally show ?thesis using True
      by (auto intro!: store.equality BackupLog.equality filter_cong simp: fun_eq_iff)
  next
    case False
    let ?s1 = "s\<lparr>files := (files s)(backup_file r := None)\<rparr>"
    let ?log1 = "log\<lparr>backups := filter (\<lambda>b. entry_id b \<noteq> entry_id r) (backups log)\<rparr>"
    have d1: "distinct (map entry_id (backups ?log1))"
      using Cons.prems by (simp add: distinct_map_filter)
    have "fold evict_one (r # rs) (s, log) = fold evict_one rs (?s1, ?log1)"
      by (simp add: evict_one_deletes[OF False Cons.prems])
    also note Cons.IH[OF d1]
    finally show ?thesis using False
      by (auto intro!: store.equality BackupLog.equality filter_cong
               simp: fun_eq_iff unlink_throws_after_delete[OF False])
  qed
qed


lemma filter_take_drop_distinct:
  assumes "distinct m"
  shows "filter (\<lambda>b. b \<in> set (drop k m) \<longrightarrow> q b) m = take k m @ filter q (drop k m)"
proof -
  have disj: "set (take k m) \<inter> set (drop k m) = {}"
    using assms by (rule set_take_disj_set_drop_if_distinct) simp
  have "filter (\<lambda>b. b \<in> set (drop k m) \<longrightarrow> q b) m
          = filter (\<lambda>b. b \<in> set (drop k m) \<longrightarrow> q b) (take k m @ drop k m)"
    by simp
  also have "\<dots> = filter (\<lambda>b. b \<in> set (drop k m) \<longrightarrow> q b) (take k m)
            @ filter (\<lambda>b. b \<in> set (drop k m) \<longrightarrow> q b) (drop k m)"
    by (rule filter_append)
  also have "filter (\<lambda>b. b \<in> set (drop k m) \<longrightarrow> q b) (take k m) = take k m"
    using disj by (auto simp: filter_id_conv)
  also have "filter (\<lambda>b. b \<in> set (drop k m) \<longrightarrow> q b) (drop k m) = filter q (drop k m)"
    by (rule filter_cong) auto
  finally show ?thesis .
qed


section \<open>Properties of age cleanup\<close>

lemma age_step_throws:
  "older_than rt c r \<Longrightarrow> unlink_throws s r \<Longrightarrow> age_step rt c r (s, n, keep) = (s, n, keep @ [r])"
  by (auto simp: age_step_def unlink_throws_def unlinkSync_def existsSync_def split: option.splits)

lemma age_step_deletes:
  "older_than rt c r \<Longrightarrow> \<not> unlink_throws s r \<Longrightarrow>
   age_step rt c r (s, n, keep) = (s\<lparr>files := (files s)(backup_file r := None)\<rparr>, n + 1, keep)"
  by (auto simp: age_step_def unlink_throws_def unlinkSync_def existsSync_def fun_upd_idem split: option.splits)

lemma age_step_recent:
  "\<not> older_than rt c r \<Longrightarrow> age_step rt c r (s, n, keep) = (s, n, keep @ [r])"
  by (simp add: age_step_def)

lemma fold_age_step:
  "fold (age_step rt c) xs (s, n, keep) =
     (s\<lparr>files := (\<lambda>p. if \<exists>r \<in> set xs. older_than rt c r \<and> \<not> unlink_throws s r \<and> backup_file r = p
                       then None else files s p)\<rparr>,
      n + length (filter (\<lambda>b. older_than rt c b \<and> \<not> unlink_throws s b) xs),
      keep @ filter (\<lambda>b. \<not> (older_than rt c b \<and> \<not> unlink_throws s b)) xs)"
proof (induction xs arbitrary: s n keep)
  case Nil
  then show ?case by simp
next
  case (Cons r rs)
  show ?case
  proof (cases "older_than rt c r \<and> \<not> unlink_throws s r")
    case True
    let ?s1 = "s\<lparr>files := (files s)(backup_file r := None)\<rparr>"
    from True have nt: "\<not> unlink_throws s r" by simp
    have "fold (age_step rt c) (r # rs) (s, n, keep) = fold (age_step rt c) rs (?s1, n + 1, keep)"
      using True by (simp add: age_step_deletes)
    also note Cons.IH
    finally show ?thesis using True
      by (auto intro!: store.equality simp: fun_eq_iff unlink_throws_after_delete[OF nt])
  next
    case False
    have "age_step rt c r (s, n, keep) = (s, n, keep @ [r])"
      using False by (cases "older_than rt c r") (simp_all add: age_step_throws age_step_recent)
    then have "fold (age_step rt c) (r # rs) (s, n, keep) = fold (age_step rt c) rs (s, n, keep @ [r])"
      by simp
    also note Cons.IH
    finally show ?thesis using False
      by (auto intro!: store.equality simp: fun_eq_iff)
  qed
qed

section \<open>Properties of comparison and of backup creation\<close>

lemma getBackupContent_unusable:
  "\<not> truthy (getBackupContent rt s backupId) \<longleftrightarrow> content_unusable rt s backupId"
  by (auto simp: getBackupContent_def truthy_def existsSync_def readFileSync_def content_unusable_def
                 UTF8_BOM_def
           split: option.splits sum.splits list.splits if_splits)

lemma content_unusable_unknown:
  "getBackupById rt s backupId = None \<Longrightarrow> content_unusable rt s backupId"
  by (simp add: content_unusable_def)

lemma loadBackupLog_files [simp]: "loadBackupLog rt (s\<lparr>files := f\<rparr>) = loadBackupLog rt s"
  by (simp add: loadBackupLog_def)

lemma new_entry_survives:
  assumes "distinct (map entry_id (entry # prev))" "1 \<le> K" "same_object rt objectName entry"
  shows "\<exists>rest. backups (snd (cleanupOldBackups rt s1 (log\<lparr>backups := entry # prev\<rparr>) objectName K)) = entry # rest"
proof (cases "K < int (length (filter (same_object rt objectName) (entry # prev)))")
  case False
  then show ?thesis
    by (simp add: cleanupOldBackups_def Let_def same_object_def[abs_def])
next
  case True
  let ?R = "slice_from (filter (same_object rt objectName) (entry # prev)) K"
  have R: "?R = drop (nat K - 1) (filter (same_object rt objectName) prev)"
    using assms(2,3) by (simp add: slice_from_def drop_Cons' nat_diff_distrib)
  have "set ?R \<subseteq> set prev"
    unfolding R using set_drop_subset[of "nat K - 1" "filter (same_object rt objectName) prev"] by auto
  with assms(1) have keep: "\<forall>r \<in> set ?R. \<not> unlink_throws s1 r \<longrightarrow> entry_id entry \<noteq> entry_id r"
    by auto
  have ids: "distinct (map entry_id (backups (log\<lparr>backups := entry # prev\<rparr>)))"
    using assms(1) by simp
  have "cleanupOldBackups rt s1 (log\<lparr>backups := entry # prev\<rparr>) objectName K
          = fold evict_one ?R (s1, log\<lparr>backups := entry # prev\<rparr>)"
    using True by (simp add: cleanupOldBackups_def Let_def same_object_def[abs_def])
  then show ?thesis
    using keep by (simp add: fold_evict_one[OF ids])
qed

lemma evict_one_log_write_error:
  "log_write_error (fst (evict_one r (s, log))) = log_write_error s"
  by (auto simp: evict_one_def unlinkSync_def split: option.splits sum.splits if_splits)

lemma fold_evict_one_log_write_error:
  "log_write_error (fst (fold evict_one rs sl)) = log_write_error (fst sl)"
proof (induction rs arbitrary: sl)
  case Nil
  then show ?case by simp
next
  case (Cons r rs)
  obtain s log where sl: "sl = (s, log)" by (cases sl)
  show ?case
    using Cons.IH[of "evict_one r (s, log)"] by (simp add: sl evict_one_log_write_error)
qed

lemma cleanupOldBackups_log_write_error:
  "log_write_error (fst (cleanupOldBackups rt s log objectName K)) = log_write_error s"
  by (simp add: cleanupOldBackups_def Let_def fold_evict_one_log_write_error)

lemma createBackup_succeeds:
  assumes "enabled config" "mkdir_error s = None"
    and "write_error s (generateBackupFilename rt objectName objectType) = None"
    and "log_write_error s = None"
  shows "result_success (fst (createBackup config rt s objectName objectType schemaName defn op db))"
  using assms
  by (simp add: createBackup_def createBackup_try_def createBackup_write_def ensureBackupDirs_def
        writeFileSync_def saveBackupLog_def Let_def split_beta cleanupOldBackups_log_write_error)

text \<open>
  The eviction run inside \<^verbatim>\<open>createBackup\<close>: when no operation of the file system
  throws and eviction is on, the log that is saved is what \<^verbatim>\<open>cleanupOldBackups\<close> makes
  of the old log with the new entry in front.
\<close>

lemma createBackup_runs_eviction:
  assumes "enabled config" "auto_cleanup config" "mkdir_error s = None"
    and "write_error s (generateBackupFilename rt objectName objectType) = None"
    and "log_write_error s = None"
  shows "snd (createBackup config rt s objectName objectType schemaName defn op db) =
           (let s1 = s\<lparr>files := (files s)(generateBackupFilename rt objectName objectType \<mapsto>
                                    formatBackupContent rt objectName objectType schemaName defn op db)\<rparr>;
                log1 = (loadBackupLog rt s)
                         \<lparr>backups := new_entry rt objectName objectType schemaName defn op db
                                       # backups (loadBackupLog rt s)\<rparr>;
                (s2, log2) = cleanupOldBackups rt s1 log1 objectName (max_backups_per_object config)
            in s2\<lparr>log_file := Some (log2\<lparr>updated_at := now_iso rt\<rparr>)\<rparr>)"
proof -
  let ?s1 = "s\<lparr>files := (files s)(generateBackupFilename rt objectName objectType \<mapsto>
                                    formatBackupContent rt objectName objectType schemaName defn op db)\<rparr>"
  let ?log1 = "(loadBackupLog rt s)
                         \<lparr>backups := new_entry rt objectName objectType schemaName defn op db
                                       # backups (loadBackupLog rt s)\<rparr>"
  have "log_write_error (fst (cleanupOldBackups rt ?s1 ?log1 objectName (max_backups_per_object config))) = None"
    using assms(5) by (simp add: cleanupOldBackups_log_write_error)
  then show ?thesis
    using assms
    by (simp add: createBackup_def createBackup_try_def createBackup_write_def ensureBackupDirs_def
          writeFileSync_def saveBackupLog_def Let_def split_beta new_entry_def)
qed

text \<open>Eviction only removes entries.\<close>

lemma splice1_subset: "set (splice1 i xs) \<subseteq> set xs"
  by (auto simp: splice1_def dest: in_set_takeD in_set_dropD)

lemma evict_one_subset:
  "set (backups (snd (evict_one r (s, log)))) \<subseteq> set (backups log)"
  using splice1_subset
  by (fastforce simp: evict_one_def split: sum.splits option.splits if_splits)

lemma fold_evict_one_subset:
  "set (backups (snd (fold evict_one rs sl))) \<subseteq> set (backups (snd sl))"
proof (induction rs arbitrary: sl)
  case Nil
  then show ?case by simp
next
  case (Cons r rs)
  obtain s log where sl: "sl = (s, log)" by (cases sl)
  have "set (backups (snd (fold evict_one rs (evict_one r (s, log)))))
          \<subseteq> set (backups (snd (evict_one r (s, log))))"
    by (rule Cons.IH)
  also have "\<dots> \<subseteq> set (backups log)" by (rule evict_one_subset)
  finally show ?case by (simp add: sl)
qed

lemma cleanupOldBackups_subset:
  "set (backups (snd (cleanupOldBackups rt s log objectName K))) \<subseteq> set (backups log)"
  using fold_evict_one_subset[of _ "(s, log)"]
  by (simp add: cleanupOldBackups_def Let_def)


section \<open>Evaluation of the worked examples\<close>

lemmas example_defs =
  example_entries_def example_files_def example_entry_def example_store_def
  example_runtime_def example_dates_def example_getDate_def example_setDate_def
  asc_def UTF8_BOM_def ascii_lower_def ascii_upper_def


section \<open>The claims of the specification\<close>


subsection \<open>Claim C1\<close>

text \<open>
  Claim C1, amended. Take an object name, a retention cap \<open>K \<ge> 0\<close> and a log whose
  entry ids are pairwise distinct and which holds more than \<open>K\<close> entries whose object
  name matches the name up to case, newest first. Of the matching entries beyond the
  first \<open>K\<close>, the eviction run of \<^verbatim>\<open>createBackup\<close> removes from the log exactly those
  whose content file is absent or is deleted without an error, and deletes their
  files; one whose file cannot be deleted stays in the log. The \<open>K\<close> most recent
  matching entries stay, and the entries of other objects are untouched. When no
  deletion throws, exactly the oldest matching entries beyond the cap are removed.
\<close>

theorem cleanupOldBackups_evicts:
  assumes ids: "distinct (map entry_id (backups log))"
    and cap: "0 \<le> K"
    and over: "K < int (length (filter (same_object rt objectName) (backups log)))"
  shows "case cleanupOldBackups rt s log objectName K of (s', log') \<Rightarrow>
           (let matching = filter (same_object rt objectName) (backups log);
                toRemove = drop (nat K) matching
            in backups log' = filter (\<lambda>b. b \<in> set toRemove \<longrightarrow> unlink_throws s b) (backups log)
               \<and> filter (same_object rt objectName) (backups log')
                     = take (nat K) matching @ filter (unlink_throws s) toRemove
               \<and> filter (\<lambda>b. \<not> same_object rt objectName b) (backups log')
                     = filter (\<lambda>b. \<not> same_object rt objectName b) (backups log)
               \<and> files s' = (\<lambda>p. if \<exists>r \<in> set toRemove. \<not> unlink_throws s r \<and> backup_file r = p
                                  then None else files s p)
               \<and> ((\<forall>r \<in> set toRemove. \<not> unlink_throws s r) \<longrightarrow>
                      filter (same_object rt objectName) (backups log') = take (nat K) matching
                      \<and> length (backups log') + (length matching - nat K) = length (backups log)))"
proof -
  let ?xs = "backups log"
  let ?P = "same_object rt objectName"
  let ?m = "filter ?P ?xs"
  let ?R = "drop (nat K) ?m"
  let ?Q = "\<lambda>b. b \<in> set ?R \<longrightarrow> unlink_throws s b"
  let ?s' = "s\<lparr>files := (\<lambda>p. if \<exists>r \<in> set ?R. \<not> unlink_throws s r \<and> backup_file r = p then None else files s p)\<rparr>"
  let ?log' = "log\<lparr>backups := filter (\<lambda>b. \<forall>r \<in> set ?R. \<not> unlink_throws s r \<longrightarrow> entry_id b \<noteq> entry_id r) ?xs\<rparr>"
  have dxs: "distinct ?xs" using ids by (rule distinct_map[THEN iffD1, THEN conjunct1])
  have inj: "inj_on entry_id (set ?xs)" using ids by (simp add: distinct_map)
  have dm: "distinct ?m" using dxs by simp
  have Rsub: "set ?R \<subseteq> set ?xs"
    using set_drop_subset[of "nat K" ?m] by auto
  have run: "cleanupOldBackups rt s log objectName K = (?s', ?log')"
    using over cap
    by (simp add: cleanupOldBackups_def Let_def slice_from_def fold_evict_one[OF ids]
          same_object_def[abs_def])
  have A: "backups ?log' = filter ?Q ?xs"
  proof -
    have "filter (\<lambda>b. \<forall>r \<in> set ?R. \<not> unlink_throws s r \<longrightarrow> entry_id b \<noteq> entry_id r) ?xs = filter ?Q ?xs"
    proof (rule filter_cong[OF refl])
      fix b assume b: "b \<in> set ?xs"
      show "(\<forall>r \<in> set ?R. \<not> unlink_throws s r \<longrightarrow> entry_id b \<noteq> entry_id r) = ?Q b"
      proof
        assume h: "\<forall>r \<in> set ?R. \<not> unlink_throws s r \<longrightarrow> entry_id b \<noteq> entry_id r"
        show "?Q b" using h by blast
      next
        assume q: "?Q b"
        show "\<forall>r \<in> set ?R. \<not> unlink_throws s r \<longrightarrow> entry_id b \<noteq> entry_id r"
        proof (intro ballI impI notI)
          fix r assume r: "r \<in> set ?R" "\<not> unlink_throws s r" "entry_id b = entry_id r"
          from r(1) Rsub have "r \<in> set ?xs" by blast
          with inj b r(3) have "b = r" by (auto dest: inj_onD)
          with q r show False by blast
        qed
      qed
    qed
    then show ?thesis by simp
  qed
  have B: "filter ?P (backups ?log') = take (nat K) ?m @ filter (unlink_throws s) ?R"
  proof -
    have "filter ?P (filter ?Q ?xs) = filter ?Q ?m"
      by (simp add: conj_commute)
    also have "\<dots> = take (nat K) ?m @ filter (unlink_throws s) ?R"
      by (rule filter_take_drop_distinct[OF dm])
    finally show ?thesis by (simp only: A)
  qed
  have C: "filter (\<lambda>b. \<not> ?P b) (backups ?log') = filter (\<lambda>b. \<not> ?P b) ?xs"
  proof -
    have "filter (\<lambda>b. \<not> ?P b) (filter ?Q ?xs) = filter (\<lambda>b. \<not> ?P b) ?xs"
      unfolding filter_filter
    proof (rule filter_cong[OF refl])
      fix b assume "b \<in> set ?xs"
      have "\<not> ?P b \<Longrightarrow> b \<notin> set ?R"
        using set_drop_subset[of "nat K" ?m] by auto
      then show "(?Q b \<and> \<not> ?P b) = (\<not> ?P b)" by blast
    qed
    then show ?thesis by (simp only: A)
  qed
  have D: "length (backups ?log') + (length ?m - nat K) = length ?xs"
    if none: "\<forall>r \<in> set ?R. \<not> unlink_throws s r"
  proof -
    from none have "filter (unlink_throws s) ?R = []" by (simp add: filter_empty_conv)
    with B have B': "filter ?P (backups ?log') = take (nat K) ?m" by simp
    have "length (backups ?log') = length (filter ?P (backups ?log')) + length (filter (\<lambda>b. \<not> ?P b) (backups ?log'))"
      by (rule sum_length_filter_compl[symmetric])
    also have "\<dots> = length (take (nat K) ?m) + length (filter (\<lambda>b. \<not> ?P b) ?xs)"
      by (simp only: B' C)
    finally have l: "length (backups ?log') = min (length ?m) (nat K) + length (filter (\<lambda>b. \<not> ?P b) ?xs)"
      by simp
    have "length ?xs = length ?m + length (filter (\<lambda>b. \<not> ?P b) ?xs)"
      by (rule sum_length_filter_compl[symmetric])
    with l over cap show ?thesis by simp
  qed
  have E: "(\<forall>r \<in> set ?R. \<not> unlink_throws s r) \<longrightarrow>
             filter ?P (backups ?log') = take (nat K) ?m
             \<and> length (backups ?log') + (length ?m - nat K) = length ?xs"
  proof
    assume none: "\<forall>r \<in> set ?R. \<not> unlink_throws s r"
    then have "filter (unlink_throws s) ?R = []" by (simp add: filter_empty_conv)
    with B D[OF none] show "filter ?P (backups ?log') = take (nat K) ?m
             \<and> length (backups ?log') + (length ?m - nat K) = length ?xs" by simp
  qed
  have F: "files ?s' = (\<lambda>p. if \<exists>r \<in> set ?R. \<not> unlink_throws s r \<and> backup_file r = p then None else files s p)"
    by simp
  show ?thesis
    unfolding run Let_def prod.case
    using A B C E F by blast
qed

theorem cleanupOldBackups_evicts_witness:
  "distinct (map entry_id example_entries)
   \<and> (0::int) \<le> 2
   \<and> 2 < int (length (filter (same_object example_runtime (asc ''foo'')) example_entries))
   \<and> map entry_id
         (backups (snd (cleanupOldBackups example_runtime (example_store example_entries example_files)
                          (loadBackupLog example_runtime (example_store example_entries example_files))
                          (asc ''foo'') 2)))
       = map asc [''bkp_8'', ''bkp_7'', ''bkp_6'', ''bkp_5'', ''bkp_2'']"
proof -
  let ?S = "example_store example_entries example_files"
  let ?L = "loadBackupLog example_runtime ?S"
  have L: "backups ?L = example_entries"
    by (simp add: loadBackupLog_def example_store_def)
  have h1: "distinct (map entry_id (backups ?L))"
    unfolding L by (simp add: example_defs)
  have h2: "(0::int) \<le> 2" by simp
  have h3: "2 < int (length (filter (same_object example_runtime (asc ''foo'')) (backups ?L)))"
    unfolding L by (simp add: same_object_def example_defs)
  have inst: "backups (snd (cleanupOldBackups example_runtime ?S ?L (asc ''foo'') 2))
          = filter (\<lambda>b. b \<in> set (drop (nat 2) (filter (same_object example_runtime (asc ''foo'')) (backups ?L)))
                          \<longrightarrow> unlink_throws ?S b) (backups ?L)"
    using cleanupOldBackups_evicts[OF h1 h2 h3, of ?S] by (simp add: split_beta Let_def)
  have ev: "map entry_id
              (filter (\<lambda>b. b \<in> set (drop (nat 2) (filter (same_object example_runtime (asc ''foo'')) example_entries))
                          \<longrightarrow> unlink_throws ?S b) example_entries)
            = map asc [''bkp_8'', ''bkp_7'', ''bkp_6'', ''bkp_5'', ''bkp_2'']"
    by (simp add: same_object_def unlink_throws_def existsSync_def example_defs)
  show ?thesis
    using h1 h2 h3 ev unfolding inst L by (intro conjI)
qed

theorem cleanupOldBackups_counterexample:
  "length (filter (same_object example_runtime (asc ''foo'')) example_entries) = 5
   \<and> map entry_id (drop 2 (filter (same_object example_runtime (asc ''foo'')) example_entries))
       = map asc [''bkp_4'', ''bkp_3'', ''bkp_1'']
   \<and> map entry_id
         (backups (snd (cleanupOldBackups example_runtime example_store_undeletable
                          (loadBackupLog example_runtime example_store_undeletable)
                          (asc ''foo'') 2)))
       = map asc [''bkp_8'', ''bkp_7'', ''bkp_6'', ''bkp_5'', ''bkp_2'', ''bkp_1'']"
  by (simp add: cleanupOldBackups_def slice_from_def evict_one_def existsSync_def unlinkSync_def
        splice1_def loadBackupLog_def same_object_def example_store_undeletable_def example_defs)


subsection \<open>Claim C2\<close>

text \<open>
  Claim C2. For every object name, type, schema, operation, database and clock reading,
  and every definition text that does not contain the delimiter closing the header,
  extracting the definition from the formatted backup content gives the definition
  text back: the byte-order mark and the header are stripped and nothing else.
\<close>

theorem extract_format_roundtrip:
  assumes "\<not> str_includes defn headerEndMarker"
  shows "extractDefinitionFromBackup (formatBackupContent rt objectName objectType schemaName defn op db) = defn"
proof -
  from assms have "\<not> sublist headerEndMarker defn" by (simp add: str_includes_sublist)
  with formatBackupContent_shape[of rt objectName objectType schemaName defn op db]
  show ?thesis by (auto simp: extract_after_marker)
qed

theorem extract_format_roundtrip_witness:
  "\<not> str_includes (asc ''SELECT 1'') headerEndMarker
   \<and> extractDefinitionFromBackup
         (formatBackupContent example_runtime (asc ''v_sales'') (asc ''VIEW'') (asc ''dbo'')
            (asc ''SELECT 1'') ALTER (asc ''sales''))
       = asc ''SELECT 1''"
proof -
  have h: "\<not> str_includes (asc ''SELECT 1'') headerEndMarker"
    by (simp add: asc_def headerEndMarker_def nl_def)
  from extract_format_roundtrip[OF h] h show ?thesis by simp
qed


subsection \<open>Claim C3\<close>

text \<open>
  Claim C3. For all texts \<open>A\<close> and \<open>B\<close>, the number of lines that the diff from \<open>A\<close> to
  \<open>B\<close> reports as added is the number that the diff from \<open>B\<close> to \<open>A\<close> reports as
  removed, and the number it reports as removed is the number the reverse diff reports
  as added.
\<close>

theorem generateDiff_counts_swap:
  "lines_added (generateDiff A B) = lines_removed (generateDiff B A) \<and>
   lines_removed (generateDiff A B) = lines_added (generateDiff B A)"
proof (cases "A = B")
  case True
  then show ?thesis by (simp add: generateDiff_def)
next
  case False
  then have ne: "A \<noteq> B" "B \<noteq> A" by auto
  let ?xs = "split_on nl A" and ?ys = "split_on nl B"
  have s: "lcs_len ?ys ?xs (length ?ys) (length ?xs) = lcs_len ?xs ?ys (length ?xs) (length ?ys)"
    by (rule lcs_len_sym)
  from generateDiff_counts[OF ne(1)] generateDiff_counts[OF ne(2)] s
  show ?thesis by simp
qed


subsection \<open>Claim C4\<close>

text \<open>
  Claim C4, amended. For every number of days that is not negative, when the log can
  be written, \<^verbatim>\<open>cleanupByAge\<close> removes from the log exactly the entries whose timestamp
  is strictly older than the cutoff and whose content file is absent or is deleted
  without an error, deletes those files, and returns the number of entries removed.
  The cutoff is the clock moved back by the days on the local calendar, as
  \<^verbatim>\<open>setDate(getDate() - days)\<close> leaves it; no entry is older than a cutoff that is an
  invalid date. An entry whose timestamp is the cutoff itself is not older and stays;
  an entry whose file cannot be deleted stays in the log and is not counted. When
  writing the log throws, \<^verbatim>\<open>cleanupByAge\<close> throws that error: the files are deleted and
  the stored log is as it was.
\<close>

theorem cleanupByAge_removes:
  assumes "0 \<le> days"
  shows "cleanupByAge rt s days =
     (let log = loadBackupLog rt s;
          gone = (\<lambda>b. older_than rt (cutoffDate rt days) b \<and> \<not> unlink_throws s b);
          s1 = s\<lparr>files := (\<lambda>p. if \<exists>r \<in> set (backups log). gone r \<and> backup_file r = p
                                 then None else files s p)\<rparr>
      in case log_write_error s of
           None \<Rightarrow>
             Inr (length (filter gone (backups log)),
                  s1\<lparr>log_file := Some (log\<lparr>backups := filter (\<lambda>b. \<not> gone b) (backups log),
                                            updated_at := now_iso rt\<rparr>)\<rparr>)
         | Some e \<Rightarrow> Inl (e, s1))
   \<and> (\<forall>b. older_than rt (cutoffDate rt days) b
            \<longleftrightarrow> (\<exists>t c. date_parse rt (timestamp b) = Some t
                      \<and> setDate rt (now_ms rt) (getDate rt (now_ms rt) - days) = Some c
                      \<and> t < c))
   \<and> (\<forall>b. date_parse rt (timestamp b) = setDate rt (now_ms rt) (getDate rt (now_ms rt) - days)
            \<longrightarrow> \<not> older_than rt (cutoffDate rt days) b)"
proof -
  have "\<forall>b. older_than rt (cutoffDate rt days) b
            \<longleftrightarrow> (\<exists>t c. date_parse rt (timestamp b) = Some t
                      \<and> setDate rt (now_ms rt) (getDate rt (now_ms rt) - days) = Some c
                      \<and> t < c)"
    by (auto simp: older_than_def cutoffDate_def split: option.splits)
  moreover have "\<forall>b. date_parse rt (timestamp b) = setDate rt (now_ms rt) (getDate rt (now_ms rt) - days)
            \<longrightarrow> \<not> older_than rt (cutoffDate rt days) b"
    by (auto simp: older_than_def cutoffDate_def split: option.splits)
  moreover have "cleanupByAge rt s days =
     (let log = loadBackupLog rt s;
          gone = (\<lambda>b. older_than rt (cutoffDate rt days) b \<and> \<not> unlink_throws s b);
          s1 = s\<lparr>files := (\<lambda>p. if \<exists>r \<in> set (backups log). gone r \<and> backup_file r = p
                                 then None else files s p)\<rparr>
      in case log_write_error s of
           None \<Rightarrow>
             Inr (length (filter gone (backups log)),
                  s1\<lparr>log_file := Some (log\<lparr>backups := filter (\<lambda>b. \<not> gone b) (backups log),
                                            updated_at := now_iso rt\<rparr>)\<rparr>)
         | Some e \<Rightarrow> Inl (e, s1))"
    by (simp add: cleanupByAge_def Let_def fold_age_step saveBackupLog_def split: option.splits)
  ultimately show ?thesis by blast
qed

theorem cleanupByAge_removes_witness:
  "(0::int) \<le> 7
   \<and> cutoffDate example_runtime 7 = Some 1709467200000
   \<and> log_write_error (example_store example_entries example_files) = None
   \<and> (case cleanupByAge example_runtime (example_store example_entries example_files) 7 of
         Inl e \<Rightarrow> False
       | Inr (n, s') \<Rightarrow>
           n = 2
           \<and> map_option (map entry_id \<circ> backups) (log_file s')
               = Some (map asc [''bkp_8'', ''bkp_7'', ''bkp_6'', ''bkp_5'', ''bkp_4'', ''bkp_3''])
           \<and> files s' (asc ''procedures/qux_2.sql'') = None
           \<and> files s' (asc ''procedures/foO_1.sql'') = None
           \<and> files s' (asc ''procedures/fOo_3.sql'') = Some (UTF8_BOM # asc ''SELECT 1''))"
proof -
  let ?S = "example_store example_entries example_files"
  have h: "log_write_error ?S = None" by (simp add: example_store_def)
  have L: "backups (loadBackupLog example_runtime ?S) = example_entries"
    by (simp add: loadBackupLog_def example_store_def)
  have removed: "filter (\<lambda>b. older_than example_runtime (cutoffDate example_runtime 7) b \<and> \<not> unlink_throws ?S b)
                   example_entries
                 = [example_entry ''bkp_2'' ''qux'' ''procedures/qux_2.sql'' ''2024-01-01T00:00:00.000Z'',
                    example_entry ''bkp_1'' ''foO'' ''procedures/foO_1.sql'' ''2024-01-01T00:00:00.000Z'']"
    by (simp add: older_than_def cutoffDate_def unlink_throws_def existsSync_def example_defs)
  have kept: "map entry_id (filter (\<lambda>b. \<not> (older_than example_runtime (cutoffDate example_runtime 7) b \<and> \<not> unlink_throws ?S b))
                   example_entries)
                 = map asc [''bkp_8'', ''bkp_7'', ''bkp_6'', ''bkp_5'', ''bkp_4'', ''bkp_3'']"
    by (simp add: older_than_def cutoffDate_def unlink_throws_def existsSync_def example_defs)
  have old: "\<And>r. r \<in> set example_entries \<and> older_than example_runtime (cutoffDate example_runtime 7) r
                    \<and> \<not> unlink_throws ?S r
              \<longleftrightarrow> r \<in> set (filter (\<lambda>b. older_than example_runtime (cutoffDate example_runtime 7) b \<and> \<not> unlink_throws ?S b)
                   example_entries)"
    by auto
  have f3: "files ?S (asc ''procedures/fOo_3.sql'') = Some (UTF8_BOM # asc ''SELECT 1'')"
    by (simp add: example_defs)
  have bex: "\<And>p. (\<exists>r\<in>set example_entries.
                       older_than example_runtime (cutoffDate example_runtime 7) r \<and>
                       \<not> unlink_throws ?S r \<and> backup_file r = p)
               \<longleftrightarrow> (p = asc ''procedures/qux_2.sql'' \<or> p = asc ''procedures/foO_1.sql'')"
  proof -
    fix p
    have "(\<exists>r\<in>set example_entries.
                       older_than example_runtime (cutoffDate example_runtime 7) r \<and>
                       \<not> unlink_throws ?S r \<and> backup_file r = p)
          \<longleftrightarrow> (\<exists>r \<in> set (filter (\<lambda>b. older_than example_runtime (cutoffDate example_runtime 7) b \<and> \<not> unlink_throws ?S b)
                   example_entries). backup_file r = p)"
      by auto
    also have "\<dots> \<longleftrightarrow> (p = asc ''procedures/qux_2.sql'' \<or> p = asc ''procedures/foO_1.sql'')"
      unfolding removed by (auto simp: example_entry_def)
    finally show "(\<exists>r\<in>set example_entries.
                       older_than example_runtime (cutoffDate example_runtime 7) r \<and>
                       \<not> unlink_throws ?S r \<and> backup_file r = p)
               \<longleftrightarrow> (p = asc ''procedures/qux_2.sql'' \<or> p = asc ''procedures/foO_1.sql'')" .
  qed
  have ne: "asc ''procedures/fOo_3.sql'' \<noteq> asc ''procedures/qux_2.sql''"
           "asc ''procedures/fOo_3.sql'' \<noteq> asc ''procedures/foO_1.sql''"
    by (simp_all add: asc_def)
  have d: "(0::int) \<le> 7" by simp
  have cut: "cutoffDate example_runtime 7 = Some 1709467200000"
    by (simp add: cutoffDate_def example_runtime_def example_getDate_def example_setDate_def)
  from cleanupByAge_removes[OF d, of example_runtime ?S, THEN conjunct1]
  have "cleanupByAge example_runtime ?S 7 =
          Inr (length (filter (\<lambda>b. older_than example_runtime (cutoffDate example_runtime 7) b \<and> \<not> unlink_throws ?S b)
                          example_entries),
               ?S\<lparr>files := (\<lambda>p. if p = asc ''procedures/qux_2.sql'' \<or> p = asc ''procedures/foO_1.sql''
                                  then None else files ?S p),
                   log_file := Some ((loadBackupLog example_runtime ?S)
                     \<lparr>backups := filter (\<lambda>b. \<not> (older_than example_runtime (cutoffDate example_runtime 7) b \<and> \<not> unlink_throws ?S b))
                                   example_entries,
                      updated_at := now_iso example_runtime\<rparr>)\<rparr>)"
    by (simp add: Let_def L h bex)
  then have main:
    "log_write_error ?S = None
     \<and> (case cleanupByAge example_runtime ?S 7 of
           Inl e \<Rightarrow> False
         | Inr (n, s') \<Rightarrow>
             n = 2
             \<and> map_option (map entry_id \<circ> backups) (log_file s')
                 = Some (map asc [''bkp_8'', ''bkp_7'', ''bkp_6'', ''bkp_5'', ''bkp_4'', ''bkp_3''])
             \<and> files s' (asc ''procedures/qux_2.sql'') = None
             \<and> files s' (asc ''procedures/foO_1.sql'') = None
             \<and> files s' (asc ''procedures/fOo_3.sql'') = Some (UTF8_BOM # asc ''SELECT 1''))"
    using h kept by (simp add: removed f3 ne)
  show ?thesis
    by (rule conjI[OF d conjI[OF cut main]])
qed

text \<open>
  The cutoff follows the local calendar. In New York the clock of the example is 08:00
  on the day the daylight-saving time begins, and seven days back on the calendar are
  an hour less than seven times 24 hours: the three entries of 2024-03-03T12:00:00Z are
  then older than the cutoff, and five entries are removed instead of two.
\<close>

lemma cleanupByAge_daylight_saving:
  "cutoffDate example_runtime_new_york 7 = Some 1709470800000
   \<and> map_sum fst fst
         (cleanupByAge example_runtime_new_york (example_store example_entries example_files) 7)
       = Inr 5"
  by (simp add: cleanupByAge_def age_step_def older_than_def cutoffDate_def saveBackupLog_def
        existsSync_def unlinkSync_def loadBackupLog_def example_runtime_new_york_def
        new_york_getDate_def new_york_setDate_def new_york_local_def new_york_utc_def
        example_defs)

theorem cleanupByAge_counterexample:
  "isl (cleanupByAge example_runtime example_store_log_readonly 7)
   \<and> fst (projl (cleanupByAge example_runtime example_store_log_readonly 7))
       = asc ''EACCES: permission denied''
   \<and> files (snd (projl (cleanupByAge example_runtime example_store_log_readonly 7)))
         (asc ''procedures/foO_1.sql'') = None
   \<and> map_option (map entry_id \<circ> backups)
         (log_file (snd (projl (cleanupByAge example_runtime example_store_log_readonly 7))))
       = Some (map asc [''bkp_8'', ''bkp_7'', ''bkp_6'', ''bkp_5'', ''bkp_4'', ''bkp_3'', ''bkp_2'', ''bkp_1''])"
  by (simp add: cleanupByAge_def age_step_def older_than_def cutoffDate_def saveBackupLog_def
        existsSync_def unlinkSync_def loadBackupLog_def example_store_log_readonly_def example_defs)


subsection \<open>Claim C5\<close>

text \<open>
  Claim C5, amended. \<^verbatim>\<open>compareBackups\<close> returns \<^verbatim>\<open>null\<close> exactly when the old id is
  unknown or its content file is absent, unreadable or empty but for a byte-order
  mark, or, for a new id other than \<^verbatim>\<open>current\<close>, the same holds of the new id, or
  \<^verbatim>\<open>current\<close> is requested with no text or with the empty text. In every other
  case it returns a result: the object name and version of the old entry, the version
  of the new entry or \<^verbatim>\<open>current\<close> with the time of the clock, and the diff from
  the old definition to the new one.
\<close>

theorem compareBackups_null_iff:
  "compareBackups rt s backupIdOld backupIdNew currentDefinition =
     (if content_unusable rt s backupIdOld
         \<or> (if backupIdNew = asc ''current'' then \<not> truthy currentDefinition
             else content_unusable rt s backupIdNew)
      then None
      else
        (let oldBackup = the (getBackupById rt s backupIdOld);
             newContent =
               (if backupIdNew = asc ''current'' then the currentDefinition
                else extractDefinitionFromBackup (the (getBackupContent rt s backupIdNew)));
             d = generateDiff
                   (extractDefinitionFromBackup (the (getBackupContent rt s backupIdOld))) newContent
         in Some \<lparr>diff = diff d,
                  lines_added = lines_added d,
                  lines_removed = lines_removed d,
                  is_identical = is_identical d,
                  diff_object_name = object_name oldBackup,
                  old_version = \<lparr>version_id = entry_id oldBackup,
                                 version_timestamp = timestamp oldBackup\<rparr>,
                  new_version =
                    (if backupIdNew = asc ''current''
                     then \<lparr>version_id = asc ''current'', version_timestamp = now_iso rt\<rparr>
                     else \<lparr>version_id = entry_id (the (getBackupById rt s backupIdNew)),
                           version_timestamp = timestamp (the (getBackupById rt s backupIdNew))\<rparr>)\<rparr>))"
proof (cases "getBackupById rt s backupIdOld")
  case None
  then show ?thesis
    by (simp add: compareBackups_def content_unusable_unknown)
next
  case old: (Some oldBackup)
  show ?thesis
  proof (cases "content_unusable rt s backupIdOld")
    case True
    then show ?thesis
      using old by (simp add: compareBackups_def Let_def getBackupContent_unusable)
  next
    case usable: False
    show ?thesis
    proof (cases "backupIdNew = asc ''current''")
      case True
      then show ?thesis
        using old usable
        by (simp add: compareBackups_def Let_def getBackupContent_unusable)
    next
      case False
      show ?thesis
      proof (cases "getBackupById rt s backupIdNew")
        case None
        then show ?thesis
          using old usable False
          by (simp add: compareBackups_def Let_def getBackupContent_unusable content_unusable_unknown)
      next
        case (Some newBackup)
        then show ?thesis
          using old usable False
          by (simp add: compareBackups_def Let_def getBackupContent_unusable)
      qed
    qed
  qed
qed

theorem compareBackups_null_iff_witness:
  "compareBackups example_runtime (example_store example_entries example_files)
     (asc ''bkp_8'') (asc ''current'') (Some (asc ''SELECT 2''))
   = Some \<lparr>diff = asc ''--- old\<newline>+++ new\<newline>\<newline>- SELECT 1\<newline>+ SELECT 2'',
            lines_added = 1,
            lines_removed = 1,
            is_identical = False,
            diff_object_name = asc ''Foo'',
            old_version = \<lparr>version_id = asc ''bkp_8'',
                           version_timestamp = asc ''2024-03-10T12:00:00.000Z''\<rparr>,
            new_version = \<lparr>version_id = asc ''current'',
                           version_timestamp = asc ''2024-03-10T12:00:00.000Z''\<rparr>\<rparr>"
proof -
  let ?S = "example_store example_entries example_files"
  have b: "getBackupById example_runtime ?S (asc ''bkp_8'')
             = Some (example_entry ''bkp_8'' ''Foo'' ''procedures/Foo_8.sql'' ''2024-03-10T12:00:00.000Z'')"
    by (simp add: getBackupById_def loadBackupLog_def example_defs)
  have f: "files ?S (asc ''procedures/Foo_8.sql'') = Some (UTF8_BOM # asc ''SELECT 1'')"
    by (simp add: example_defs)
  have r: "read_error ?S (asc ''procedures/Foo_8.sql'') = None"
    by (simp add: example_store_def)
  have u: "\<not> content_unusable example_runtime ?S (asc ''bkp_8'')"
    by (simp add: content_unusable_def b f r example_entry_def) (simp add: asc_def UTF8_BOM_def)
  have c: "getBackupContent example_runtime ?S (asc ''bkp_8'') = Some (asc ''SELECT 1'')"
    by (simp add: getBackupContent_def b existsSync_def readFileSync_def f r example_entry_def)
       (simp add: asc_def UTF8_BOM_def)
  have e: "extractDefinitionFromBackup (asc ''SELECT 1'') = asc ''SELECT 1''"
    by (simp add: extractDefinitionFromBackup_def headerEndMarker_def statement_at_def keyword_at_def
          asc_def nl_def)
  have g: "generateDiff (asc ''SELECT 1'') (asc ''SELECT 2'')
             = \<lparr>diff = asc ''--- old\<newline>+++ new\<newline>\<newline>- SELECT 1\<newline>+ SELECT 2'',
                lines_added = 1, lines_removed = 1, is_identical = False\<rparr>"
    by (simp add: generateDiff_def lcs_def lcs_cell_def backtrack_def backtrack_loop.simps asc_def nl_def)
  have t: "truthy (Some (asc ''SELECT 2''))"
    by (simp add: truthy_def asc_def)
  have n: "now_iso example_runtime = asc ''2024-03-10T12:00:00.000Z''"
    by (simp add: example_runtime_def)
  show ?thesis
    unfolding compareBackups_null_iff
    by (simp add: u t b c e g n Let_def example_entry_def)
qed

theorem compareBackups_counterexample:
  "getBackupById example_runtime example_store_empty_file (asc ''bkp_8'')
     = Some (example_entry ''bkp_8'' ''Foo'' ''procedures/Foo_8.sql'' ''2024-03-10T12:00:00.000Z'')
   \<and> files example_store_empty_file (asc ''procedures/Foo_8.sql'') = Some [UTF8_BOM]
   \<and> readFileSync example_store_empty_file (asc ''procedures/Foo_8.sql'') = Inr [UTF8_BOM]
   \<and> truthy (Some (asc ''SELECT 2''))
   \<and> compareBackups example_runtime example_store_empty_file
         (asc ''bkp_8'') (asc ''current'') (Some (asc ''SELECT 2'')) = None"
  by (simp add: compareBackups_def getBackupById_def getBackupContent_def loadBackupLog_def
        existsSync_def readFileSync_def truthy_def example_entries_def example_entry_def
        example_store_def example_store_empty_file_def example_runtime_def asc_def UTF8_BOM_def)


subsection \<open>Claim C6\<close>

text \<open>
  Claim C6. When backup is disabled in the configuration, \<^verbatim>\<open>createBackup\<close> returns the
  result with an empty id, an empty file name and the message that backup is disabled,
  and the store is the one it was given: no file is written, no entry is added to the
  log and nothing is evicted. The result is returned, not thrown, and it is not the
  failure result of the \<^verbatim>\<open>catch\<close> block, from which its message tells it apart; the
  flag \<^verbatim>\<open>success\<close> is false in both.
\<close>

theorem createBackup_disabled:
  assumes "\<not> enabled config"
  shows "createBackup config rt s objectName objectType schemaName defn op db =
           (\<lparr>result_success = False,
             message = asc ''Backup is disabled in configuration'',
             result_file = [],
             backup_id = []\<rparr>, s)
         \<and> (\<forall>errorMessage.
               fst (createBackup config rt s objectName objectType schemaName defn op db) \<noteq>
                 \<lparr>result_success = False,
                  message = asc ''Failed to create backup: '' @ errorMessage,
                  result_file = [],
                  backup_id = []\<rparr>)"
  using assms by (simp add: createBackup_def asc_def)

theorem createBackup_disabled_witness:
  "\<not> enabled \<lparr>enabled = False, directory = asc ''.sql_backups'', max_backups_per_object = 50,
                auto_cleanup = True, cleanup_days = 30\<rparr>
   \<and> createBackup \<lparr>enabled = False, directory = asc ''.sql_backups'', max_backups_per_object = 50,
                    auto_cleanup = True, cleanup_days = 30\<rparr>
        example_runtime (example_store example_entries example_files)
        (asc ''foo'') (asc ''PROCEDURE'') (asc ''dbo'') (asc ''SELECT 1'') ALTER (asc ''sales'')
     = (\<lparr>result_success = False,
          message = asc ''Backup is disabled in configuration'',
          result_file = [],
          backup_id = []\<rparr>, example_store example_entries example_files)"
proof -
  let ?c = "\<lparr>enabled = False, directory = asc ''.sql_backups'', max_backups_per_object = 50,
                auto_cleanup = True, cleanup_days = 30\<rparr>"
  have h: "\<not> enabled ?c" by simp
  from createBackup_disabled[OF h] h show ?thesis by blast
qed


subsection \<open>Claim C7\<close>

text \<open>
  Claim C7. For every log and every limit that is not negative, \<^verbatim>\<open>listBackups\<close>
  returns the entries of the log, in the order of the log, that pass both filters,
  cut to the first \<open>limit\<close> of them; a call without a limit has the limit 50. The
  name filter applies when a name is given
  (a string that is not empty) and keeps the entries whose name equals it after lower
  casing; the type filter applies when a type is given and keeps the entries whose
  type, in upper case, contains the given type in upper case or is contained in it.
\<close>

theorem listBackups_filters:
  assumes "0 \<le> limit"
  shows "listBackups rt s objectName objectType (Some limit) =
           take (nat limit)
             (filter (\<lambda>b. (truthy objectName \<longrightarrow>
                              toLowerCase rt (object_name b) = toLowerCase rt (the objectName))
                         \<and> (truthy objectType \<longrightarrow>
                              str_includes (toUpperCase rt (object_type b)) (toUpperCase rt (the objectType))
                              \<or> str_includes (toUpperCase rt (the objectType)) (toUpperCase rt (object_type b))))
                (backups (loadBackupLog rt s)))
         \<and> listBackups rt s objectName objectType None = listBackups rt s objectName objectType (Some 50)"
  using assms by (simp add: listBackups_def Let_def slice_to_def conj_commute)

theorem listBackups_filters_witness:
  "(0::int) \<le> 2
   \<and> listBackups example_runtime (example_store example_entries example_files)
        (Some (asc ''Foo'')) None (Some 2)
     = [example_entry ''bkp_8'' ''Foo'' ''procedures/Foo_8.sql'' ''2024-03-10T12:00:00.000Z'',
        example_entry ''bkp_6'' ''FOO'' ''procedures/FOO_6.sql'' ''2024-03-10T12:00:00.000Z'']"
proof -
  have h: "(0::int) \<le> 2" by simp
  have L: "backups (loadBackupLog example_runtime (example_store example_entries example_files)) = example_entries"
    by (simp add: loadBackupLog_def example_store_def)
  show ?thesis
    unfolding listBackups_filters[OF h, THEN conjunct1] L
    by (simp add: truthy_def example_defs)
qed


subsection \<open>Claim C8\<close>

text \<open>
  Claim C8. For every text \<open>T\<close>, the diff of \<open>T\<close> with itself is the explicit result of
  the comparison of the two texts: it is marked identical, counts no added and no
  removed line, and its text is \<^verbatim>\<open>(No changes)\<close>. The table plays no part in it:
  the result is the same whatever function stands for \<^verbatim>\<open>lcs\<close>.
\<close>

theorem generateDiff_identical:
  "generateDiff T T =
     \<lparr>diff = asc ''(No changes)'', lines_added = 0, lines_removed = 0, is_identical = True\<rparr>
   \<and> generateDiff_with table T T = generateDiff T T"
  by (simp add: generateDiff_def generateDiff_with_def)


subsection \<open>Claim C9\<close>

text \<open>
  Claim C9. When \<^verbatim>\<open>createBackup\<close> succeeds, the first part of its \<^verbatim>\<open>try\<close> block has
  written a content string, the header followed by the definition, to the file that
  the result names, and has put a new entry in front of the log: the entry carries the
  id and the file name of the result, and the hash recorded in it is
  \<^verbatim>\<open>sha256:\<close> followed by the digest of the very string that the file holds at that
  moment. What is saved afterwards holds entries of that log only; without eviction it
  is that log and the file still holds the string, and with eviction, a cap of at
  least one and ids that are pairwise distinct, the new entry heads the saved log.
\<close>

theorem createBackup_hash:
  assumes "createBackup config rt s objectName objectType schemaName defn op db = (result, s')"
    and "result_success result"
  shows "\<exists>s1 log1 entry written saved.
           createBackup_write rt s objectName objectType schemaName defn op db
             = Inr (s1, log1, backup_id result, result_file result)
           \<and> backups log1 = entry # backups (loadBackupLog rt s)
           \<and> entry_id entry = backup_id result
           \<and> backup_file entry = result_file result
           \<and> written = formatBackupContent rt objectName objectType schemaName defn op db
           \<and> writeFileSync s (backup_file entry) written = Inr s1
           \<and> files s1 (backup_file entry) = Some written
           \<and> file_hash entry = asc ''sha256:'' @ sha256_hex rt written
           \<and> log_file s' = Some saved
           \<and> set (backups saved) \<subseteq> set (backups log1)
           \<and> (\<not> auto_cleanup config \<longrightarrow>
                 backups saved = backups log1 \<and> files s' (backup_file entry) = Some written)
           \<and> (auto_cleanup config \<and> 1 \<le> max_backups_per_object config
                \<and> distinct (map entry_id (backups log1)) \<longrightarrow>
                 (\<exists>rest. backups saved = entry # rest))"
proof -
  let ?entry = "new_entry rt objectName objectType schemaName defn op db"
  let ?text = "formatBackupContent rt objectName objectType schemaName defn op db"
  let ?file = "generateBackupFilename rt objectName objectType"
  let ?log1 = "(loadBackupLog rt s)\<lparr>backups := ?entry # backups (loadBackupLog rt s)\<rparr>"
  have efile: "backup_file ?entry = ?file"
    and ehash: "file_hash ?entry = asc ''sha256:'' @ sha256_hex rt ?text"
    and eid: "entry_id ?entry = generateBackupId rt" and ename: "object_name ?entry = objectName"
    by (simp_all add: new_entry_def calculateHash_def)
  from assms have en: "enabled config"
    by (auto simp: createBackup_def split: if_splits)
  from assms en have
    tried: "createBackup_try config rt s objectName objectType schemaName defn op db = Inr (result, s')"
    by (auto simp: createBackup_def split: sum.splits prod.splits)
  from tried obtain s1 log1 bid bfile where
    cw: "createBackup_write rt s objectName objectType schemaName defn op db = Inr (s1, log1, bid, bfile)"
    by (auto simp: createBackup_try_def split: sum.splits prod.splits)
  from cw have w: "writeFileSync s ?file ?text = Inr s1"
    by (auto simp: createBackup_write_def Let_def split: sum.splits)
  then have s1: "s1 = s\<lparr>files := (files s)(?file \<mapsto> ?text)\<rparr>"
    by (auto simp: writeFileSync_def split: option.splits)
  from cw w have parts: "log1 = ?log1" "bid = generateBackupId rt" "bfile = ?file"
    by (auto simp: createBackup_write_def Let_def new_entry_def s1 split: sum.splits)
  let ?c = "if auto_cleanup config
            then cleanupOldBackups rt s1 ?log1 objectName (max_backups_per_object config)
            else (s1, ?log1)"
  from tried cw have save: "saveBackupLog rt (fst ?c) (snd ?c) = Inr s'"
    and res: "result = \<lparr>result_success = True, message = asc ''Backup created successfully'',
                         result_file = ?file, backup_id = generateBackupId rt\<rparr>"
    unfolding createBackup_try_def parts
    by (auto split: sum.splits prod.splits if_splits)
  let ?saved = "(snd ?c)\<lparr>updated_at := now_iso rt\<rparr>"
  from save have s': "s' = (fst ?c)\<lparr>log_file := Some ?saved\<rparr>"
    by (auto simp: saveBackupLog_def split: option.splits)
  have A: "createBackup_write rt s objectName objectType schemaName defn op db
             = Inr (s1, ?log1, backup_id result, result_file result)"
    using cw by (simp add: parts res)
  have B: "writeFileSync s (backup_file ?entry) ?text = Inr s1"
    "files s1 (backup_file ?entry) = Some ?text"
    using w s1 by (simp_all add: efile)
  have C: "log_file s' = Some ?saved" by (simp add: s')
  have D: "set (backups ?saved) \<subseteq> set (backups ?log1)"
    using cleanupOldBackups_subset[of rt s1 ?log1 objectName "max_backups_per_object config"]
    by auto
  have E: "\<not> auto_cleanup config \<longrightarrow>
             backups ?saved = backups ?log1 \<and> files s' (backup_file ?entry) = Some ?text"
    by (simp add: s' s1 efile)
  have F: "auto_cleanup config \<and> 1 \<le> max_backups_per_object config
                 \<and> distinct (map entry_id (backups ?log1)) \<longrightarrow>
                  (\<exists>rest. backups ?saved = ?entry # rest)"
  proof (intro impI, elim conjE)
    assume ac: "auto_cleanup config" and k: "1 \<le> max_backups_per_object config"
      and d: "distinct (map entry_id (backups ?log1))"
    from d have d': "distinct (map entry_id (?entry # backups (loadBackupLog rt s)))" by simp
    have "same_object rt objectName ?entry" by (simp add: same_object_def ename)
    from new_entry_survives[OF d' k this, of s1 "loadBackupLog rt s"]
    show "\<exists>rest. backups ?saved = ?entry # rest"
      using ac by simp
  qed
  have G: "backups ?log1 = ?entry # backups (loadBackupLog rt s)"
    "entry_id ?entry = backup_id result" "backup_file ?entry = result_file result"
    by (simp_all add: res eid efile)
  show ?thesis
    using A B C D E F G ehash by blast
qed

theorem createBackup_hash_witness:
  "result_success
     (fst (createBackup
             \<lparr>enabled = True, directory = asc ''.sql_backups'', max_backups_per_object = 50,
              auto_cleanup = True, cleanup_days = 30\<rparr>
             example_runtime (example_store example_entries example_files)
             (asc ''foo'') (asc ''PROCEDURE'') (asc ''dbo'') (asc ''SELECT 1'') ALTER (asc ''sales'')))
   \<and> (\<exists>s1 log1 rest.
         createBackup_write example_runtime (example_store example_entries example_files)
           (asc ''foo'') (asc ''PROCEDURE'') (asc ''dbo'') (asc ''SELECT 1'') ALTER (asc ''sales'')
           = Inr (s1, log1, asc ''bkp_ltlgps00_k3x9qz'', asc ''procedures/foo_20240310_120000.sql'')
         \<and> entry_id (hd (backups log1)) = asc ''bkp_ltlgps00_k3x9qz''
         \<and> backup_file (hd (backups log1)) = asc ''procedures/foo_20240310_120000.sql''
         \<and> file_hash (hd (backups log1)) = asc ''sha256:22xv''
         \<and> map_option (\<lambda>t. asc ''sha256:'' @ sha256_hex example_runtime t)
               (files s1 (asc ''procedures/foo_20240310_120000.sql''))
             = Some (asc ''sha256:22xv'')
         \<and> map_option backups
               (log_file (snd (createBackup
                  \<lparr>enabled = True, directory = asc ''.sql_backups'', max_backups_per_object = 50,
                   auto_cleanup = True, cleanup_days = 30\<rparr>
                  example_runtime (example_store example_entries example_files)
                  (asc ''foo'') (asc ''PROCEDURE'') (asc ''dbo'') (asc ''SELECT 1'') ALTER (asc ''sales''))))
             = Some (hd (backups log1) # rest))"
proof -
  let ?c = "\<lparr>enabled = True, directory = asc ''.sql_backups'', max_backups_per_object = 50,
              auto_cleanup = True, cleanup_days = 30\<rparr>"
  let ?S = "example_store example_entries example_files"
  let ?R = "createBackup ?c example_runtime ?S
             (asc ''foo'') (asc ''PROCEDURE'') (asc ''dbo'') (asc ''SELECT 1'') ALTER (asc ''sales'')"
  let ?W = "createBackup_write example_runtime ?S
             (asc ''foo'') (asc ''PROCEDURE'') (asc ''dbo'') (asc ''SELECT 1'') ALTER (asc ''sales'')"
  let ?T = "formatBackupContent example_runtime (asc ''foo'') (asc ''PROCEDURE'') (asc ''dbo'')
              (asc ''SELECT 1'') ALTER (asc ''sales'')"
  have h1: "?R = (fst ?R, snd ?R)" by simp
  have h2: "result_success (fst ?R)"
    by (rule createBackup_succeeds) (simp_all add: example_store_def)
  from createBackup_hash[OF h1 h2] obtain s1 log1 entry saved where
    cw: "?W = Inr (s1, log1, backup_id (fst ?R), result_file (fst ?R))"
    and log1: "backups log1 = entry # backups (loadBackupLog example_runtime ?S)"
    and eid: "entry_id entry = backup_id (fst ?R)"
    and efile: "backup_file entry = result_file (fst ?R)"
    and held: "files s1 (backup_file entry) = Some ?T"
    and ehash: "file_hash entry = asc ''sha256:'' @ sha256_hex example_runtime ?T"
    and saved: "log_file (snd ?R) = Some saved"
    and heads: "auto_cleanup ?c \<and> 1 \<le> max_backups_per_object ?c
                \<and> distinct (map entry_id (backups log1)) \<longrightarrow>
                 (\<exists>rest. backups saved = entry # rest)"
    by blast
  have names: "map_sum id (\<lambda>(s1, log1, names). names) ?W
                 = Inr (asc ''bkp_ltlgps00_k3x9qz'', asc ''procedures/foo_20240310_120000.sql'')"
    by (simp add: createBackup_write_def ensureBackupDirs_def writeFileSync_def Let_def
          generateBackupId_def toString36_def digits36.simps digit36_def
          generateBackupFilename_def getObjectTypeDir_def typeMap_def sanitize_unit_def
          line_terminator_def example_store_def example_runtime_def asc_def ascii_upper_def)
  from names cw have rid: "backup_id (fst ?R) = asc ''bkp_ltlgps00_k3x9qz''"
    and rfile: "result_file (fst ?R) = asc ''procedures/foo_20240310_120000.sql''"
    by simp_all
  have digest: "sha256_hex example_runtime ?T = asc ''22xv''"
    by (simp add: formatBackupContent_def rule_line_def operation_text_def line_terminator_def
          UTF8_BOM_def nl_def digits36.simps digit36_def example_runtime_def asc_def)
  have L: "backups (loadBackupLog example_runtime ?S) = example_entries"
    by (simp add: loadBackupLog_def example_store_def)
  have "distinct (map entry_id (backups log1))"
    unfolding log1 L list.map eid rid
    by (simp add: example_entries_def example_entry_def asc_def)
  with heads obtain rest where rest: "backups saved = entry # rest" by auto
  have hd1: "hd (backups log1) = entry" by (simp add: log1)
  have cat: "asc ''sha256:'' @ asc ''22xv'' = asc ''sha256:22xv''" by (simp add: asc_def)
  have fh: "file_hash entry = asc ''sha256:22xv''"
    using ehash unfolding digest cat .
  have held': "map_option (\<lambda>t. asc ''sha256:'' @ sha256_hex example_runtime t)
                 (files s1 (asc ''procedures/foo_20240310_120000.sql''))
               = Some (asc ''sha256:22xv'')"
    using held unfolding efile rfile by (simp add: digest cat)
  have "?W = Inr (s1, log1, asc ''bkp_ltlgps00_k3x9qz'', asc ''procedures/foo_20240310_120000.sql'')
         \<and> entry_id (hd (backups log1)) = asc ''bkp_ltlgps00_k3x9qz''
         \<and> backup_file (hd (backups log1)) = asc ''procedures/foo_20240310_120000.sql''
         \<and> file_hash (hd (backups log1)) = asc ''sha256:22xv''
         \<and> map_option (\<lambda>t. asc ''sha256:'' @ sha256_hex example_runtime t)
               (files s1 (asc ''procedures/foo_20240310_120000.sql''))
             = Some (asc ''sha256:22xv'')
         \<and> map_option backups (log_file (snd ?R)) = Some (hd (backups log1) # rest)"
    unfolding hd1
    using cw[unfolded rid rfile] eid[unfolded rid] efile[unfolded rfile] fh held' saved rest
    by simp
  then show ?thesis using h2 by blast
qed

subsection \<open>Claim C10\<close>

text \<open>
  Claim C10. For every old backup id that the log knows, comparing it with
  \<^verbatim>\<open>current\<close> and the empty string as the current definition returns \<^verbatim>\<open>null\<close>.
\<close>

theorem compareBackups_current_empty:
  assumes "getBackupById rt s backupIdOld = Some oldBackup"
  shows "compareBackups rt s backupIdOld (asc ''current'') (Some []) = None"
  using assms by (simp add: compareBackups_def Let_def truthy_def)

theorem compareBackups_current_empty_witness:
  "getBackupById example_runtime (example_store example_entries example_files) (asc ''bkp_6'')
     = Some (example_entry ''bkp_6'' ''FOO'' ''procedures/FOO_6.sql'' ''2024-03-10T12:00:00.000Z'')
   \<and> compareBackups example_runtime (example_store example_entries example_files)
        (asc ''bkp_6'') (asc ''current'') (Some []) = None"
proof -
  have h: "getBackupById example_runtime (example_store example_entries example_files) (asc ''bkp_6'')
     = Some (example_entry ''bkp_6'' ''FOO'' ''procedures/FOO_6.sql'' ''2024-03-10T12:00:00.000Z'')"
    by (simp add: getBackupById_def loadBackupLog_def example_defs)
  from compareBackups_current_empty[OF h] h show ?thesis by simp
qed


end
